theory Spec2Isabelle
  imports Main "HOL-Library.Word" "HOL-Library.Log_Nat" "HOL-Library.Multiset" "HOL-Library.Option_ord"
begin

unbundle bit_operations_syntax

section \<open>Data model\<close>

text \<open>
  Location codes are the 32-bit integers that JavaScript's bitwise operators
  work on: \<open><<\<close> and \<open>|\<close> produce a 32-bit pattern, \<open>>>>\<close> reads it
  unsigned. Coordinates and distances are JavaScript numbers, modelled as
  exact rationals.
\<close>

type_synonym loccode = "32 word"

record Vector3f =
  c0 :: rat
  c1 :: rat
  c2 :: rat

definition vec :: "rat \<Rightarrow> rat \<Rightarrow> rat \<Rightarrow> Vector3f" where
  "vec a b c = \<lparr>c0 = a, c1 = b, c2 = c\<rparr>"

text \<open>
  Modelled from the spec: the class AABB (centre, radius, assigned location
  code) with its constructor, \<open>setLocCode\<close>, \<open>distanceToPointSq\<close> and
  \<open>distanceFromCenterToPointSq\<close>.
\<close>

record AABB =
  center :: Vector3f
  radius :: rat
  locCode :: loccode

definition new_AABB :: "Vector3f \<Rightarrow> rat \<Rightarrow> AABB" where
  "new_AABB c r = \<lparr>center = c, radius = r, locCode = 0\<rparr>"

definition setLocCode :: "AABB \<Rightarrow> loccode \<Rightarrow> AABB" where
  "setLocCode b lc = b\<lparr>locCode := lc\<rparr>"

definition axisDist :: "rat \<Rightarrow> rat \<Rightarrow> rat \<Rightarrow> rat" where
  "axisDist c r p =
     (if p < c - r then (c - r) - p else if p > c + r then p - (c + r) else 0)"

definition distanceToPointSq :: "AABB \<Rightarrow> rat \<Rightarrow> rat \<Rightarrow> rat \<Rightarrow> rat" where
  "distanceToPointSq b px py pz =
     (axisDist (c0 (center b)) (radius b) px)\<^sup>2
   + (axisDist (c1 (center b)) (radius b) py)\<^sup>2
   + (axisDist (c2 (center b)) (radius b) pz)\<^sup>2"

definition distanceFromCenterToPointSq :: "AABB \<Rightarrow> rat \<Rightarrow> rat \<Rightarrow> rat \<Rightarrow> rat" where
  "distanceFromCenterToPointSq b px py pz =
     (c0 (center b) - px)\<^sup>2 + (c1 (center b) - py)\<^sup>2 + (c2 (center b) - pz)\<^sup>2"

text \<open>
  The two maps of the octree. A key of \<open>points\<close> is absent (\<open>None\<close>), present
  with \<open>null\<close> (\<open>Some None\<close>) or present with an index array. The threshold
  and the maximum depth are counts; the constructor replaces 0 by its default.
\<close>

record Octree =
  threshold :: nat
  maxDepth :: nat
  points :: "loccode \<rightharpoonup> nat list option"
  aabbs :: "loccode \<rightharpoonup> AABB"

definition new_Octree :: "nat \<Rightarrow> nat \<Rightarrow> Octree" where
  "new_Octree t d =
     \<lparr>threshold = (if t = 0 then 500 else t), maxDepth = (if d = 0 then 8 else d),
      points = Map.empty, aabbs = Map.empty\<rparr>"

definition offsets :: "(rat \<times> rat \<times> rat) list" where
  "offsets =
     [(-1/2, -1/2, -1/2), (-1/2, -1/2, 1/2), (-1/2, 1/2, -1/2), (-1/2, 1/2, 1/2),
      (1/2, -1/2, -1/2), (1/2, -1/2, 1/2), (1/2, 1/2, -1/2), (1/2, 1/2, 1/2)]"

section \<open>Location codes\<close>

text \<open>
  Modelled from the spec: \<open>Utils.msb\<close>, the index of the highest set bit of
  the 32-bit value; \<open>generateLocCode\<close> tests it against \<open>-1\<close> for the value
  without any set bit.
\<close>

definition msb :: "loccode \<Rightarrow> int" where
  "msb n = int (floorlog 2 (unat n)) - 1"

definition getDepth :: "loccode \<Rightarrow> rat" where
  "getDepth lc = of_int (msb lc) / 3"

definition generateLocCode :: "loccode \<Rightarrow> loccode \<Rightarrow> loccode" where
  "generateLocCode parentCode nodeCode =
     (if msb parentCode = -1 then nodeCode OR 8
      else push_bit 3 parentCode OR nodeCode)"

definition getParent :: "loccode \<Rightarrow> loccode" where
  "getParent lc = drop_bit 3 lc"

section \<open>Build\<close>

text \<open>A loop whose body may fail to return: the first \<open>None\<close> ends it.\<close>

fun forEach :: "('s \<Rightarrow> 'a \<Rightarrow> 's option) \<Rightarrow> 'a list \<Rightarrow> 's \<Rightarrow> 's option" where
  "forEach body [] s = Some s"
| "forEach body (i # is) s =
     (case body s i of None \<Rightarrow> None | Some s' \<Rightarrow> forEach body is s')"

text \<open>Reading a typed array out of range gives \<open>undefined\<close>.\<close>

definition elemAt :: "'a list \<Rightarrow> nat \<Rightarrow> 'a option" where
  "elemAt xs i = (if i < length xs then Some (xs ! i) else None)"

text \<open>\<open>v >= c\<close> where \<open>v\<close> may be \<open>undefined\<close>: the comparison is then false.\<close>

definition geq :: "rat option \<Rightarrow> rat \<Rightarrow> bool" where
  "geq v c = (case v of None \<Rightarrow> False | Some a \<Rightarrow> a \<ge> c)"

definition octant :: "rat list \<Rightarrow> AABB \<Rightarrow> nat \<Rightarrow> nat" where
  "octant vertices aabb p =
     (let k = p * 3 in
        (if geq (elemAt vertices (k + 0)) (c0 (center aabb)) then 4 else 0)
     OR (if geq (elemAt vertices (k + 1)) (c1 (center aabb)) then 2 else 0)
     OR (if geq (elemAt vertices (k + 2)) (c2 (center aabb)) then 1 else 0))"

definition nextPoints :: "nat list \<Rightarrow> nat list \<Rightarrow> nat \<Rightarrow> nat list" where
  "nextPoints pointIndices codes i =
     map fst (filter (\<lambda>(p, c). c = i) (zip pointIndices codes))"

definition nextAabb :: "AABB \<Rightarrow> nat \<Rightarrow> AABB" where
  "nextAabb aabb i =
     (case offsets ! i of (ox, oy, oz) \<Rightarrow>
        new_AABB \<lparr>c0 = c0 (center aabb) + ox * radius aabb,
                  c1 = c1 (center aabb) + oy * radius aabb,
                  c2 = c2 (center aabb) + oz * radius aabb\<rparr>
                 (1/2 * radius aabb))"

text \<open>
  \<open>build\<close> recurses once per level; the first argument bounds the depth of
  the recursion, and \<open>None\<close> stands for a build that did not return within it.
\<close>

fun build :: "nat \<Rightarrow> Octree \<Rightarrow> nat list \<Rightarrow> rat list \<Rightarrow> AABB \<Rightarrow> loccode \<Rightarrow> Octree option" where
  "build 0 this pointIndices vertices aabb lc = None"
| "build (Suc fuel) this pointIndices vertices aabb lc =
     (let aabb = setLocCode aabb lc;
          this = this\<lparr>points := (points this)(lc \<mapsto> None)\<rparr>;
          this = this\<lparr>aabbs := (aabbs this)(lc \<mapsto> aabb)\<rparr>;
          depth = getDepth lc
      in if length pointIndices \<le> threshold this \<or> depth \<ge> of_nat (maxDepth this)
         then Some (this\<lparr>points := (points this)(lc \<mapsto> Some pointIndices)\<rparr>)
         else
           let codes = map (octant vertices aabb) pointIndices;
               childPointCounts = (\<lambda>i. length (filter (\<lambda>c. c = i) codes))
           in forEach
                (\<lambda>this i.
                   if childPointCounts i = 0 then Some this
                   else build fuel this (nextPoints pointIndices codes i) vertices
                          (nextAabb aabb i) (generateLocCode lc (of_nat i)))
                [0..<8] this)"

section \<open>Traversal\<close>

text \<open>
  The callback is a state transformer over whatever the caller accumulates.
\<close>

fun traverse ::
  "nat \<Rightarrow> Octree \<Rightarrow> (nat list option option \<Rightarrow> AABB \<Rightarrow> loccode \<Rightarrow> 's \<Rightarrow> 's) \<Rightarrow> loccode \<Rightarrow> 's \<Rightarrow> 's option"
where
  "traverse 0 this traverseCallback lc s = None"
| "traverse (Suc fuel) this traverseCallback lc s =
     forEach
       (\<lambda>s i.
          let next = push_bit 3 lc OR of_nat i in
          case aabbs this next of
            None \<Rightarrow> Some s
          | Some box \<Rightarrow>
              traverse fuel this traverseCallback next
                (traverseCallback (points this next) box next s))
       [0..<8] s"

fun traverseIf ::
  "nat \<Rightarrow> Octree \<Rightarrow> (nat list option option \<Rightarrow> AABB \<Rightarrow> loccode \<Rightarrow> 's \<Rightarrow> 's) \<Rightarrow>
   (AABB \<Rightarrow> loccode \<Rightarrow> bool) \<Rightarrow> loccode \<Rightarrow> 's \<Rightarrow> 's option"
where
  "traverseIf 0 this traverseIfCallback conditionCallback lc s = None"
| "traverseIf (Suc fuel) this traverseIfCallback conditionCallback lc s =
     forEach
       (\<lambda>s i.
          let next = push_bit 3 lc OR of_nat i in
          case aabbs this next of
            None \<Rightarrow> Some s
          | Some box \<Rightarrow>
              if \<not> conditionCallback box next then Some s
              else traverseIf fuel this traverseIfCallback conditionCallback next
                     (traverseIfCallback (points this next) box next s))
       [0..<8] s"

definition getLocCodes :: "Octree \<Rightarrow> loccode set" where
  "getLocCodes this = dom (aabbs this)"

text \<open>The codes \<open>traverse\<close> hands to its callback, in the order of the calls.\<close>

definition visited :: "nat \<Rightarrow> Octree \<Rightarrow> loccode list option" where
  "visited fuel this = traverse fuel this (\<lambda>pts box lc acc. acc @ [lc]) 1 []"


section \<open>Box queries\<close>

definition MAX_VALUE :: rat where
  "MAX_VALUE = 2 ^ 1024 - 2 ^ 971"

text \<open>
  The loop over the eight children shared by the box queries: it returns
  \<open>closest\<close>, which is \<open>-1\<close> or the (signed) code of the selected child.
\<close>

definition closestChild :: "Octree \<Rightarrow> (AABB \<Rightarrow> rat) \<Rightarrow> nat \<Rightarrow> loccode \<Rightarrow> int" where
  "closestChild this distOf thresh lc =
     fst (foldl
       (\<lambda>(closest, minDist) i.
          let next = push_bit 3 lc OR of_nat i in
          case aabbs this next of
            None \<Rightarrow> (closest, minDist)
          | Some box \<Rightarrow>
              if (case points this next of Some (Some ps) \<Rightarrow> length ps < thresh | _ \<Rightarrow> False)
              then (closest, minDist)
              else let dist = distOf box in
                   if dist < minDist then (sint next, dist) else (closest, minDist))
       (-1, MAX_VALUE) [0..<8])"

text \<open>
  The result is \<open>None\<close> when the descent does not return, \<open>Some None\<close> when
  it returns \<open>undefined\<close> (no box recorded under the code it stops at).
\<close>

partial_function (option) getClosestBox ::
  "Octree \<Rightarrow> Vector3f \<Rightarrow> nat \<Rightarrow> loccode \<Rightarrow> AABB option option"
where
  "getClosestBox this point thresh lc =
     (let closest = closestChild this
            (\<lambda>b. distanceToPointSq b (c0 point) (c1 point) (c2 point)) thresh lc
      in if closest < 0 then Some (aabbs this lc)
         else getClosestBox this point thresh (word_of_int closest))"

declare getClosestBox.simps [code]

definition getClosestBoxFromCenter ::
  "Octree \<Rightarrow> Vector3f \<Rightarrow> nat \<Rightarrow> loccode \<Rightarrow> AABB option option"
where
  "getClosestBoxFromCenter this point thresh lc =
     (let closest = closestChild this
            (\<lambda>b. distanceFromCenterToPointSq b (c0 point) (c1 point) (c2 point)) thresh lc
      in if closest < 0 then Some (aabbs this lc)
         else getClosestBox this point thresh (word_of_int closest))"

text \<open>
  The descent the documentation of \<open>getClosestBoxFromCenter\<close> describes: the
  distance to the box centre at every level.
\<close>

partial_function (option) centerDescent ::
  "Octree \<Rightarrow> Vector3f \<Rightarrow> nat \<Rightarrow> loccode \<Rightarrow> AABB option option"
where
  "centerDescent this point thresh lc =
     (let closest = closestChild this
            (\<lambda>b. distanceFromCenterToPointSq b (c0 point) (c1 point) (c2 point)) thresh lc
      in if closest < 0 then Some (aabbs this lc)
         else centerDescent this point thresh (word_of_int closest))"

declare centerDescent.simps [code]

section \<open>Ray search\<close>

text \<open>
  The ray and \<open>AABB.cylinderTest\<close> are not part of this development: the
  test, applied to the ray's source, inverse direction, far plane and
  threshold, is the parameter \<open>cylinderTest\<close>. A result item is the pair of
  a point index and a location code.
\<close>

definition raySearch ::
  "nat \<Rightarrow> ('r \<Rightarrow> AABB \<Rightarrow> bool) \<Rightarrow> Octree \<Rightarrow> 'r \<Rightarrow> (nat \<times> loccode) list option"
where
  "raySearch fuel cylinderTest this raycaster =
     (let result = (case points this 1 of
                      Some (Some ps) \<Rightarrow> map (\<lambda>p. (p, 1)) ps
                    | _ \<Rightarrow> [])
      in traverseIf fuel this
           (\<lambda>pts aabb lc result.
              case pts of
                Some (Some ps) \<Rightarrow> result @ map (\<lambda>p. (p, lc)) ps
              | _ \<Rightarrow> result)
           (\<lambda>aabb lc. cylinderTest raycaster aabb)
           1 result)"

section \<open>Nearest neighbours\<close>















section \<open>Example octrees\<close>

text \<open>The five points of the specification's example, in a root box of radius 8.\<close>

definition fiveVertices :: "rat list" where
  "fiveVertices = [0,0,0, 0,0,1, 0,1,0, 1,0,0, 5,5,5]"

definition fiveTree :: "Octree option" where
  "fiveTree = build 5 (new_Octree 2 4) [0, 1, 2, 3, 4] fiveVertices (new_AABB (vec 0 0 0) 8) 1"

definition fiveState :: Octree where
  "fiveState =
     \<lparr>threshold = 2, maxDepth = 4,
      points = [1 \<mapsto> None, 15 \<mapsto> None, 120 \<mapsto> None, 960 \<mapsto> None,
                7680 \<mapsto> Some [0], 7681 \<mapsto> Some [1], 7682 \<mapsto> Some [2],
                7684 \<mapsto> Some [3], 127 \<mapsto> Some [4]],
      aabbs = [1 \<mapsto> setLocCode (new_AABB (vec 0 0 0) 8) 1,
               15 \<mapsto> setLocCode (new_AABB (vec 4 4 4) 4) 15,
               120 \<mapsto> setLocCode (new_AABB (vec 2 2 2) 2) 120,
               960 \<mapsto> setLocCode (new_AABB (vec 1 1 1) 1) 960,
               7680 \<mapsto> setLocCode (new_AABB (vec (1/2) (1/2) (1/2)) (1/2)) 7680,
               7681 \<mapsto> setLocCode (new_AABB (vec (1/2) (1/2) (3/2)) (1/2)) 7681,
               7682 \<mapsto> setLocCode (new_AABB (vec (1/2) (3/2) (1/2)) (1/2)) 7682,
               7684 \<mapsto> setLocCode (new_AABB (vec (3/2) (1/2) (1/2)) (1/2)) 7684,
               127 \<mapsto> setLocCode (new_AABB (vec 6 6 6) 2) 127]\<rparr>"

text \<open>Two points that share the first octant and part at the second level.\<close>

definition twoVertices :: "rat list" where
  "twoVertices = [15,25,25, 25,15,15]"

definition twoTree :: "Octree option" where
  "twoTree = build 3 (new_Octree 1 4) [0, 1] twoVertices (new_AABB (vec 0 0 0) 40) 1"


definition twoState :: Octree where
  "twoState =
     \<lparr>threshold = 1, maxDepth = 4,
      points = [1 \<mapsto> None, 15 \<mapsto> None, 123 \<mapsto> Some [0], 124 \<mapsto> Some [1]],
      aabbs = [1 \<mapsto> setLocCode (new_AABB (vec 0 0 0) 40) 1,
               15 \<mapsto> setLocCode (new_AABB (vec 20 20 20) 20) 15,
               123 \<mapsto> setLocCode (new_AABB (vec 10 30 30) 10) 123,
               124 \<mapsto> setLocCode (new_AABB (vec 30 10 10) 10) 124]\<rparr>"

text \<open>Two of three vertices indexed, in a root that stays a leaf.\<close>

definition lineVertices :: "rat list" where
  "lineVertices = [0,0,0, 1,0,0, 2,0,0]"

definition lineTree :: "Octree option" where
  "lineTree = build 1 (new_Octree 2 4) [1, 2] lineVertices (new_AABB (vec 0 0 0) 4) 1"



definition lineState :: Octree where
  "lineState =
     \<lparr>threshold = 2, maxDepth = 4,
      points = [1 \<mapsto> Some [1, 2]],
      aabbs = [1 \<mapsto> setLocCode (new_AABB (vec 0 0 0) 4) 1]\<rparr>"

text \<open>
  Two points that stay together for ten levels under a maximum depth of 11,
  and four points whose two pairs do so in the octants 3 and 7.
\<close>

definition deepVertices :: "rat list" where
  "deepVertices = [1,1,1, 3,3,3]"

definition deepTree :: "Octree option" where
  "deepTree = build 12 (new_Octree 1 11) [0, 1] deepVertices (new_AABB (vec 0 0 0) 2048) 1"

definition deepState :: Octree where
  "deepState =
     \<lparr>threshold = 1, maxDepth = 11,
      points = [1 \<mapsto> None,
                15 \<mapsto> None,
                120 \<mapsto> None,
                960 \<mapsto> None,
                7680 \<mapsto> None,
                61440 \<mapsto> None,
                491520 \<mapsto> None,
                3932160 \<mapsto> None,
                31457280 \<mapsto> None,
                251658240 \<mapsto> None,
                2013265920 \<mapsto> None,
                3221225472 \<mapsto> Some [0],
                3221225479 \<mapsto> Some [1]],
      aabbs = [1 \<mapsto> setLocCode (new_AABB (vec 0 0 0) 2048) 1,
               15 \<mapsto> setLocCode (new_AABB (vec 1024 1024 1024) 1024) 15,
               120 \<mapsto> setLocCode (new_AABB (vec 512 512 512) 512) 120,
               960 \<mapsto> setLocCode (new_AABB (vec 256 256 256) 256) 960,
               7680 \<mapsto> setLocCode (new_AABB (vec 128 128 128) 128) 7680,
               61440 \<mapsto> setLocCode (new_AABB (vec 64 64 64) 64) 61440,
               491520 \<mapsto> setLocCode (new_AABB (vec 32 32 32) 32) 491520,
               3932160 \<mapsto> setLocCode (new_AABB (vec 16 16 16) 16) 3932160,
               31457280 \<mapsto> setLocCode (new_AABB (vec 8 8 8) 8) 31457280,
               251658240 \<mapsto> setLocCode (new_AABB (vec 4 4 4) 4) 251658240,
               2013265920 \<mapsto> setLocCode (new_AABB (vec 2 2 2) 2) 2013265920,
               3221225472 \<mapsto> setLocCode (new_AABB (vec 1 1 1) 1) 3221225472,
               3221225479 \<mapsto> setLocCode (new_AABB (vec 3 3 3) 1) 3221225479]\<rparr>"

definition collideVertices :: "rat list" where
  "collideVertices = [-2047,1,1, -2045,3,3, 1,1,1, 3,3,3]"

definition collideTree :: "Octree option" where
  "collideTree =
     build 12 (new_Octree 1 11) [0, 1, 2, 3] collideVertices (new_AABB (vec 0 0 0) 2048) 1"

definition collideState :: Octree where
  "collideState =
     \<lparr>threshold = 1, maxDepth = 11,
      points = [1 \<mapsto> None,
                11 \<mapsto> None,
                88 \<mapsto> None,
                704 \<mapsto> None,
                5632 \<mapsto> None,
                45056 \<mapsto> None,
                360448 \<mapsto> None,
                2883584 \<mapsto> None,
                23068672 \<mapsto> None,
                184549376 \<mapsto> None,
                1476395008 \<mapsto> None,
                15 \<mapsto> None,
                120 \<mapsto> None,
                960 \<mapsto> None,
                7680 \<mapsto> None,
                61440 \<mapsto> None,
                491520 \<mapsto> None,
                3932160 \<mapsto> None,
                31457280 \<mapsto> None,
                251658240 \<mapsto> None,
                2013265920 \<mapsto> None,
                3221225472 \<mapsto> Some [2],
                3221225479 \<mapsto> Some [3]],
      aabbs = [1 \<mapsto> setLocCode (new_AABB (vec 0 0 0) 2048) 1,
               11 \<mapsto> setLocCode (new_AABB (vec (- 1024) 1024 1024) 1024) 11,
               88 \<mapsto> setLocCode (new_AABB (vec (- 1536) 512 512) 512) 88,
               704 \<mapsto> setLocCode (new_AABB (vec (- 1792) 256 256) 256) 704,
               5632 \<mapsto> setLocCode (new_AABB (vec (- 1920) 128 128) 128) 5632,
               45056 \<mapsto> setLocCode (new_AABB (vec (- 1984) 64 64) 64) 45056,
               360448 \<mapsto> setLocCode (new_AABB (vec (- 2016) 32 32) 32) 360448,
               2883584 \<mapsto> setLocCode (new_AABB (vec (- 2032) 16 16) 16) 2883584,
               23068672 \<mapsto> setLocCode (new_AABB (vec (- 2040) 8 8) 8) 23068672,
               184549376 \<mapsto> setLocCode (new_AABB (vec (- 2044) 4 4) 4) 184549376,
               1476395008 \<mapsto> setLocCode (new_AABB (vec (- 2046) 2 2) 2) 1476395008,
               15 \<mapsto> setLocCode (new_AABB (vec 1024 1024 1024) 1024) 15,
               120 \<mapsto> setLocCode (new_AABB (vec 512 512 512) 512) 120,
               960 \<mapsto> setLocCode (new_AABB (vec 256 256 256) 256) 960,
               7680 \<mapsto> setLocCode (new_AABB (vec 128 128 128) 128) 7680,
               61440 \<mapsto> setLocCode (new_AABB (vec 64 64 64) 64) 61440,
               491520 \<mapsto> setLocCode (new_AABB (vec 32 32 32) 32) 491520,
               3932160 \<mapsto> setLocCode (new_AABB (vec 16 16 16) 16) 3932160,
               31457280 \<mapsto> setLocCode (new_AABB (vec 8 8 8) 8) 31457280,
               251658240 \<mapsto> setLocCode (new_AABB (vec 4 4 4) 4) 251658240,
               2013265920 \<mapsto> setLocCode (new_AABB (vec 2 2 2) 2) 2013265920,
               3221225472 \<mapsto> setLocCode (new_AABB (vec 1 1 1) 1) 3221225472,
               3221225479 \<mapsto> setLocCode (new_AABB (vec 3 3 3) 1) 3221225479]\<rparr>"

text \<open>
  Two points that share the octant 0 on every level, under a maximum depth of
  10.
\<close>

definition zeroVertices :: "rat list" where
  "zeroVertices = [-2047,-2047,-2047, -2046,-2046,-2046]"

definition zeroTree :: "Octree option" where
  "zeroTree = build 11 (new_Octree 1 10) [0, 1] zeroVertices (new_AABB (vec 0 0 0) 2048) 1"

definition zeroState :: Octree where
  "zeroState =
     \<lparr>threshold = 1, maxDepth = 10,
      points = [1 \<mapsto> None,
                8 \<mapsto> None,
                64 \<mapsto> None,
                512 \<mapsto> None,
                4096 \<mapsto> None,
                32768 \<mapsto> None,
                262144 \<mapsto> None,
                2097152 \<mapsto> None,
                16777216 \<mapsto> None,
                134217728 \<mapsto> None,
                1073741824 \<mapsto> Some [0, 1]],
      aabbs = [1 \<mapsto> setLocCode (new_AABB (vec 0 0 0) 2048) 1,
               8 \<mapsto> setLocCode (new_AABB (vec (- 1024) (- 1024) (- 1024)) 1024) 8,
               64 \<mapsto> setLocCode (new_AABB (vec (- 1536) (- 1536) (- 1536)) 512) 64,
               512 \<mapsto> setLocCode (new_AABB (vec (- 1792) (- 1792) (- 1792)) 256) 512,
               4096 \<mapsto> setLocCode (new_AABB (vec (- 1920) (- 1920) (- 1920)) 128) 4096,
               32768 \<mapsto> setLocCode (new_AABB (vec (- 1984) (- 1984) (- 1984)) 64) 32768,
               262144 \<mapsto> setLocCode (new_AABB (vec (- 2016) (- 2016) (- 2016)) 32) 262144,
               2097152 \<mapsto> setLocCode (new_AABB (vec (- 2032) (- 2032) (- 2032)) 16) 2097152,
               16777216 \<mapsto> setLocCode (new_AABB (vec (- 2040) (- 2040) (- 2040)) 8) 16777216,
               134217728 \<mapsto> setLocCode (new_AABB (vec (- 2044) (- 2044) (- 2044)) 4) 134217728,
               1073741824 \<mapsto> setLocCode (new_AABB (vec (- 2046) (- 2046) (- 2046)) 2) 1073741824]\<rparr>"

section \<open>Notions used in the proofs\<close>

text \<open>
  The state after \<open>build\<close> has recorded the box of a node and set its
  points to \<open>null\<close>, the state of a node that stays a leaf, and the body of
  the loop over the eight octants.
\<close>

definition enter :: "Octree \<Rightarrow> AABB \<Rightarrow> loccode \<Rightarrow> Octree" where
  "enter this aabb lc =
     this\<lparr>points := (points this)(lc \<mapsto> None), aabbs := (aabbs this)(lc \<mapsto> setLocCode aabb lc)\<rparr>"

definition leafOf :: "Octree \<Rightarrow> AABB \<Rightarrow> loccode \<Rightarrow> nat list \<Rightarrow> Octree" where
  "leafOf this aabb lc pointIndices =
     this\<lparr>points := (points this)(lc \<mapsto> Some pointIndices),
          aabbs := (aabbs this)(lc \<mapsto> setLocCode aabb lc)\<rparr>"

definition stops :: "Octree \<Rightarrow> nat list \<Rightarrow> loccode \<Rightarrow> bool" where
  "stops this pointIndices lc \<longleftrightarrow>
     length pointIndices \<le> threshold this \<or> getDepth lc \<ge> of_nat (maxDepth this)"

definition childCount :: "rat list \<Rightarrow> AABB \<Rightarrow> nat list \<Rightarrow> nat \<Rightarrow> nat" where
  "childCount vertices aabb pointIndices i =
     length (filter (\<lambda>c. c = i) (map (octant vertices aabb) pointIndices))"

definition childPoints :: "rat list \<Rightarrow> AABB \<Rightarrow> nat list \<Rightarrow> nat \<Rightarrow> nat list" where
  "childPoints vertices aabb pointIndices i =
     nextPoints pointIndices (map (octant vertices aabb) pointIndices) i"

definition childBody ::
  "nat \<Rightarrow> nat list \<Rightarrow> rat list \<Rightarrow> AABB \<Rightarrow> loccode \<Rightarrow> Octree \<Rightarrow> nat \<Rightarrow> Octree option"
where
  "childBody fuel pointIndices vertices aabb lc this i =
     (if childCount vertices aabb pointIndices i = 0 then Some this
      else build fuel this (childPoints vertices aabb pointIndices i) vertices
             (nextAabb aabb i) (generateLocCode lc (of_nat i)))"

text \<open>
  \<open>beneath c k\<close>: the node \<open>c\<close> is \<open>k\<close> or an ancestor of \<open>k\<close>, that is,
  taking the parent of \<open>k\<close> repeatedly reaches \<open>c\<close>.
\<close>

definition beneath :: "loccode \<Rightarrow> loccode \<Rightarrow> bool" where
  "beneath c k \<longleftrightarrow> (\<exists>n. (getParent ^^ n) k = c)"

text \<open>The child code that \<open>build\<close> and the traversals compute without overflow.\<close>

definition childCode :: "loccode \<Rightarrow> nat \<Rightarrow> loccode" where
  "childCode c i = push_bit 3 c OR of_nat i"

text \<open>
  The points a node contributes as a leaf, and the multiset union of the
  point lists of all keys of the points map that hold a list.
\<close>

definition leafm :: "Octree \<Rightarrow> loccode \<Rightarrow> nat multiset" where
  "leafm this k = (case points this k of Some (Some xs) \<Rightarrow> mset xs | _ \<Rightarrow> {#})"

definition leafUnion :: "Octree \<Rightarrow> nat multiset" where
  "leafUnion this = (\<Sum>k \<in> dom (points this). leafm this k)"

text \<open>The points of the lists recorded at a node and beneath it.\<close>

definition leavesBeneath :: "Octree \<Rightarrow> loccode \<Rightarrow> nat multiset" where
  "leavesBeneath s c = (\<Sum>k | beneath c k. leafm s k)"

text \<open>
  What the proofs establish about the part of the maps beneath a node \<open>c\<close>
  that build has returned from: the node is recorded; every recorded node
  beneath it is a code of some depth up to \<open>D\<close>; every recorded node beneath it
  other than \<open>c\<close> has its parent recorded; a recorded node holds \<open>null\<close>
  exactly when it is the parent of a recorded node; the lists beneath it
  add up to \<open>M\<close>; and a recorded node beneath it holds a list exactly when
  the lists at and beneath that node have at most \<open>threshold\<close> points
  together or the node has the depth \<open>D\<close>.
\<close>

definition subtreeOK :: "nat \<Rightarrow> Octree \<Rightarrow> loccode \<Rightarrow> nat multiset \<Rightarrow> bool" where
  "subtreeOK D s c M \<longleftrightarrow>
     c \<in> dom (aabbs s)
   \<and> (\<forall>k. beneath c k \<and> k \<in> dom (aabbs s) \<longrightarrow> (\<exists>d \<le> D. msb k = 3 * int d))
   \<and> (\<forall>k. beneath c k \<and> k \<in> dom (aabbs s) \<and> k \<noteq> c \<longrightarrow> getParent k \<in> dom (aabbs s))
   \<and> (\<forall>k. beneath c k \<and> k \<in> dom (aabbs s) \<longrightarrow>
          (points s k = Some None \<longleftrightarrow> (\<exists>k' \<in> dom (aabbs s). getParent k' = k))
          \<and> points s k \<noteq> None)
   \<and> (\<Sum>k | beneath c k. leafm s k) = M
   \<and> (\<forall>k. beneath c k \<and> k \<in> dom (aabbs s) \<longrightarrow>
          ((\<exists>xs. points s k = Some (Some xs))
            \<longleftrightarrow> size (leavesBeneath s k) \<le> threshold s \<or> msb k \<ge> 3 * int D))"

section \<open>Location code arithmetic\<close>

lemma msb_le_iff: "msb w \<le> int n - 1 \<longleftrightarrow> unat w < 2 ^ n"
proof -
  have "msb w \<le> int n - 1 \<longleftrightarrow> floorlog 2 (unat w) \<le> n"
    unfolding msb_def by linarith
  then show ?thesis by (simp add: floorlog_le_iff)
qed

lemma msb_minus1_iff: "msb w = -1 \<longleftrightarrow> w = 0"
  by (simp add: msb_def floorlog_eq_zero_iff unat_eq_0)

lemma unat_push3:
  fixes p :: loccode
  assumes "unat p < 2 ^ 29"
  shows "unat (push_bit 3 p) = 8 * unat p"
proof -
  have "unat (p * 8) = unat p * unat (8 :: loccode)"
    using assms by (subst unat_mult_lem [symmetric]) simp
  then show ?thesis by (simp add: push_bit_eq_mult)
qed

lemma small_bits:
  fixes c :: loccode
  assumes "c < 8" "bit c n"
  shows "n < 3"
proof -
  have "unat c < 2 ^ 3" using assms(1) by (simp add: word_less_nat_alt)
  then have "take_bit 3 (unat c) = unat c" by (simp only: take_bit_nat_eq_self)
  then have "take_bit 3 c = c"
    by (simp add: word_eq_iff_unsigned [where ?'a = nat] unsigned_take_bit_eq)
  then have "bit (take_bit 3 c) n" using assms(2) by simp
  then show ?thesis by (simp add: bit_take_bit_iff)
qed

lemma or_add:
  fixes p c :: loccode
  assumes "c < 8"
  shows "push_bit 3 p OR c = push_bit 3 p + c"
proof -
  have "\<not> bit (push_bit 3 p) n \<or> \<not> bit c n" for n
    using small_bits [OF assms, of n] by (auto simp: bit_push_bit_iff)
  then show ?thesis by (simp add: disjunctive_add)
qed

lemma unat_child:
  fixes p c :: loccode
  assumes "unat p < 2 ^ 29" "c < 8"
  shows "unat (push_bit 3 p OR c) = 8 * unat p + unat c"
proof -
  have c: "unat c < 8" using assms(2) by (simp add: word_less_nat_alt)
  have "unat (push_bit 3 p + c) = unat (push_bit 3 p) + unat c"
    using assms(1) c by (subst unat_add_lem [symmetric]) (simp add: unat_push3)
  then show ?thesis using assms by (simp add: or_add unat_push3)
qed

lemma getParent_child:
  fixes p c :: loccode
  assumes "unat p < 2 ^ 29" "c < 8"
  shows "getParent (push_bit 3 p OR c) = p"
proof -
  have "unat c < 8" using assms(2) by (simp add: word_less_nat_alt)
  then have "unat (getParent (push_bit 3 p OR c)) = unat p"
    using assms by (simp add: getParent_def drop_bit_eq_div unat_div unat_child)
  then show ?thesis by (simp add: word_unat_eq_iff)
qed

text \<open>
  C9. Round trip of the location-code arithmetic: for a parent code that has
  its sentinel bit (it is not 0) and leaves room for one more level in 32
  bits (its highest set bit is at index 28 or below), and a child selector
  in 0..7, \<open>getParent\<close> of the generated child code is the parent code.
\<close>

theorem generateLocCode_getParent_roundtrip:
  assumes "parentCode \<noteq> 0" "msb parentCode \<le> 28" "childSelector < 8"
  shows "getParent (generateLocCode parentCode childSelector) = parentCode"
proof -
  have "unat parentCode < 2 ^ 29"
    using assms(2) msb_le_iff [of parentCode 29] by simp
  then have "getParent (push_bit 3 parentCode OR childSelector) = parentCode"
    using assms(3) by (rule getParent_child)
  then show ?thesis
    using assms(1) by (simp only: generateLocCode_def msb_minus1_iff if_False)
qed

theorem generateLocCode_getParent_roundtrip_witness:
  "(15 :: loccode) \<noteq> 0 \<and> msb 15 \<le> 28 \<and> (3 :: loccode) < 8
   \<and> getParent (generateLocCode 15 3) = 15"
  using generateLocCode_getParent_roundtrip [of 15 3]
  by (simp add: msb_def compute_floorlog)



section \<open>Evaluating the examples\<close>

lemma forEach_weak_cong: "is = js \<Longrightarrow> s = t \<Longrightarrow> forEach body is s = forEach body js t"
  by simp

lemma upt8: "[0..<8] = [0, 1, 2, 3, 4, 5, 6, 7 :: nat]"
  by (simp add: upt_rec)

lemma build_num:
  "build (numeral n) this pointIndices vertices aabb lc =
     (let aabb = setLocCode aabb lc;
          this = this\<lparr>points := (points this)(lc \<mapsto> None)\<rparr>;
          this = this\<lparr>aabbs := (aabbs this)(lc \<mapsto> aabb)\<rparr>;
          depth = getDepth lc
      in if length pointIndices \<le> threshold this \<or> depth \<ge> of_nat (maxDepth this)
         then Some (this\<lparr>points := (points this)(lc \<mapsto> Some pointIndices)\<rparr>)
         else
           let codes = map (octant vertices aabb) pointIndices;
               childPointCounts = (\<lambda>i. length (filter (\<lambda>c. c = i) codes))
           in forEach
                (\<lambda>this i.
                   if childPointCounts i = 0 then Some this
                   else build (pred_numeral n) this (nextPoints pointIndices codes i) vertices
                          (nextAabb aabb i) (generateLocCode lc (of_nat i)))
                [0..<8] this)"
proof -
  have "build (numeral n) this pointIndices vertices aabb lc =
        build (Suc (pred_numeral n)) this pointIndices vertices aabb lc"
    by (simp only: numeral_eq_Suc)
  then show ?thesis unfolding build.simps .
qed

lemma traverse_num:
  "traverse (numeral n) this cb lc s =
     forEach
       (\<lambda>s i.
          let next = push_bit 3 lc OR of_nat i in
          case aabbs this next of
            None \<Rightarrow> Some s
          | Some box \<Rightarrow> traverse (pred_numeral n) this cb next (cb (points this next) box next s))
       [0..<8] s"
proof -
  have "traverse (numeral n) this cb lc s = traverse (Suc (pred_numeral n)) this cb lc s"
    by (simp only: numeral_eq_Suc)
  then show ?thesis unfolding traverse.simps .
qed

lemmas build_evals =
  build_num upt8 new_Octree_def new_AABB_def vec_def setLocCode_def getDepth_def msb_def
  compute_floorlog octant_def elemAt_def geq_def Let_def nextPoints_def nextAabb_def
  offsets_def generateLocCode_def

lemmas box_evals =
  closestChild_def upt8 Let_def setLocCode_def new_AABB_def vec_def distanceToPointSq_def
  distanceFromCenterToPointSq_def axisDist_def MAX_VALUE_def

lemma fiveTree_eq: "fiveTree = Some fiveState"
  by (simp add: fiveTree_def fiveVertices_def fiveState_def build_evals cong: forEach_weak_cong)

lemma twoTree_eq: "twoTree = Some twoState"
  by (simp add: twoTree_def twoVertices_def twoState_def build_evals cong: forEach_weak_cong)

lemma lineTree_eq: "lineTree = Some lineState"
  by (simp add: lineTree_def lineVertices_def lineState_def build_evals cong: forEach_weak_cong)

lemma visited_fiveState:
  "visited 5 fiveState = Some [15, 120, 960, 7680, 7681, 7682, 7684, 127]"
  by (simp add: visited_def fiveState_def traverse_num upt8 Let_def setLocCode_def
        new_AABB_def vec_def cong: forEach_weak_cong)

lemma getClosestBox_fiveState:
  "getClosestBox fiveState (vec 0 0 0) 0 1 = Some (aabbs fiveState 7680)"
  by (simp add: getClosestBox.simps fiveState_def box_evals)

section \<open>The example of the specification\<close>

text \<open>
  C2, as the claim states it, fails. With threshold 2, maximum depth 4 and
  the five points in a root box of centre 0 and radius 8, the first
  subdivision creates a single child, octant 7 (code 15), because every
  coordinate of every point is at least the centre's: none of the codes
  8 to 14 exists, and 15 is an internal node, so the outlier has no leaf of
  its own below the root. The box \<open>getClosestBox\<close> returns for the origin
  is the leaf 7680, whose list is the single point 0, not the four clustered
  points.
\<close>

theorem five_points_example_counterexample:
  "fiveTree = Some fiveState
   \<and> aabbs fiveState 8 = None \<and> aabbs fiveState 9 = None \<and> aabbs fiveState 10 = None
   \<and> aabbs fiveState 11 = None \<and> aabbs fiveState 12 = None \<and> aabbs fiveState 13 = None
   \<and> aabbs fiveState 14 = None \<and> points fiveState 15 = Some None
   \<and> getClosestBox fiveState (vec 0 0 0) 0 1 = Some (aabbs fiveState 7680)
   \<and> points fiveState 7680 = Some (Some [0])"
  using fiveTree_eq getClosestBox_fiveState by (simp add: fiveState_def)

text \<open>
  C2, amended. The build returns the tree \<open>fiveState\<close>: the nodes 1, 15,
  120 and 960 are subdivided (four subdivisions along one path); the second
  subdivision separates the outlier into the leaf 127; the four clustered
  points end in the leaves 7680, 7681, 7682 and 7684, one point each, at the
  maximum depth. \<open>getClosestBox\<close> for the origin and threshold 0 returns
  the box of the leaf 7680, which holds the point 0 only and is not the
  outlier's leaf.
\<close>

theorem five_points_example:
  "fiveTree = Some fiveState
   \<and> visited 5 fiveState = Some [15, 120, 960, 7680, 7681, 7682, 7684, 127]
   \<and> map (points fiveState) [1, 15, 120, 960] = [Some None, Some None, Some None, Some None]
   \<and> map (points fiveState) [7680, 7681, 7682, 7684, 127]
       = [Some (Some [0]), Some (Some [1]), Some (Some [2]), Some (Some [3]), Some (Some [4])]
   \<and> map getDepth [7680, 7681, 7682, 7684, 127] = [4, 4, 4, 4, 2]
   \<and> getClosestBox fiveState (vec 0 0 0) 0 1 = Some (aabbs fiveState 7680)
   \<and> map_option locCode (aabbs fiveState 7680) = Some 7680"
  using fiveTree_eq visited_fiveState getClosestBox_fiveState
  by (simp add: fiveState_def setLocCode_def getDepth_def msb_def compute_floorlog)



section \<open>The centre-distance descent\<close>

lemma getClosestBoxFromCenter_twoState:
  "getClosestBoxFromCenter twoState (vec 10 14 14) 0 1 = Some (aabbs twoState 123)"
  by (simp add: getClosestBoxFromCenter_def getClosestBox.simps twoState_def box_evals)

lemma centerDescent_twoState:
  "centerDescent twoState (vec 10 14 14) 0 1 = Some (aabbs twoState 124)"
  by (simp add: centerDescent.simps twoState_def box_evals)

text \<open>
  C4. \<open>getClosestBoxFromCenter\<close> measures the distance to the box centre
  at the first level only: its recursive call is to \<open>getClosestBox\<close>, so
  every deeper level selects by the distance to the box surface. On the tree
  of the two points (15,25,25) and (25,15,15) and the query point
  (10,14,14) it returns the box 123; the descent by centre distance at every
  level returns the box 124, whose centre is the nearer one.
\<close>

theorem getClosestBoxFromCenter_divergence:
  "twoTree = Some twoState
   \<and> getClosestBoxFromCenter twoState (vec 10 14 14) 0 1 = Some (aabbs twoState 123)
   \<and> centerDescent twoState (vec 10 14 14) 0 1 = Some (aabbs twoState 124)
   \<and> aabbs twoState 123 \<noteq> aabbs twoState 124
   \<and> distanceFromCenterToPointSq (the (aabbs twoState 124)) 10 14 14
       < distanceFromCenterToPointSq (the (aabbs twoState 123)) 10 14 14"
  using twoTree_eq getClosestBoxFromCenter_twoState centerDescent_twoState
  by (simp add: twoState_def setLocCode_def new_AABB_def vec_def
        distanceFromCenterToPointSq_def)

section \<open>The length of the nearest-neighbour result\<close>











section \<open>The entries of the points map\<close>

text \<open>
  C6, as the claim states it, fails. In the tree of the two points, the root
  and the node 15 are internal nodes, and both are keys of the points map
  with the value \<open>null\<close>.
\<close>

theorem internal_node_entry_counterexample:
  "twoTree = Some twoState
   \<and> points twoState 1 = Some None \<and> points twoState 15 = Some None"
  using twoTree_eq by (simp add: twoState_def)


section \<open>Ray search and the root's points\<close>

lemma forEach_invariant:
  assumes "forEach body is s = Some s'" and "I s"
    and "\<And>s i s'. i \<in> set is \<Longrightarrow> I s \<Longrightarrow> body s i = Some s' \<Longrightarrow> I s'"
  shows "I s'"
  using assms
proof (induction "is" arbitrary: s)
  case Nil
  then show ?case by simp
next
  case (Cons i "is")
  from Cons.prems(1) obtain s1 where s1: "body s i = Some s1" "forEach body is s1 = Some s'"
    by (auto split: option.splits)
  have "I s1" using Cons.prems(2,3) s1(1) by (meson list.set_intros(1))
  show ?case
  proof (rule Cons.IH [OF s1(2) \<open>I s1\<close>])
    fix t j t'
    assume "j \<in> set is" "I t" "body t j = Some t'"
    then show "I t'" using Cons.prems(3) [of j t t'] by simp
  qed
qed

lemma traverseIf_invariant:
  assumes "traverseIf fuel this cb cond lc s = Some s'" and "I s"
    and step: "\<And>pts box k s. I s \<Longrightarrow> I (cb pts box k s)"
  shows "I s'"
  using assms(1,2)
proof (induction fuel arbitrary: lc s s')
  case 0
  then show ?case by simp
next
  case (Suc fuel)
  from Suc.prems(1) have
    "forEach
       (\<lambda>s i.
          let next = push_bit 3 lc OR of_nat i in
          case aabbs this next of
            None \<Rightarrow> Some s
          | Some box \<Rightarrow>
              if \<not> cond box next then Some s
              else traverseIf fuel this cb cond next (cb (points this next) box next s))
       [0..<8] s = Some s'"
    by simp
  then show ?case
  proof (rule forEach_invariant)
    show "I s" by (rule Suc.prems(2))
  next
    fix t i t'
    assume "I t" and
      b: "(let next = push_bit 3 lc OR of_nat i in
          case aabbs this next of
            None \<Rightarrow> Some t
          | Some box \<Rightarrow>
              if \<not> cond box next then Some t
              else traverseIf fuel this cb cond next (cb (points this next) box next t)) = Some t'"
    show "I t'"
    proof (cases "aabbs this (push_bit 3 lc OR of_nat i)")
      case None
      then show ?thesis using b \<open>I t\<close> by (simp add: Let_def)
    next
      case (Some box)
      show ?thesis
      proof (cases "cond box (push_bit 3 lc OR of_nat i)")
        case False
        then show ?thesis using b Some \<open>I t\<close> by (simp add: Let_def)
      next
        case True
        then have "traverseIf fuel this cb cond (push_bit 3 lc OR of_nat i)
                     (cb (points this (push_bit 3 lc OR of_nat i)) box (push_bit 3 lc OR of_nat i) t)
                   = Some t'"
          using b Some by (simp add: Let_def)
        then show ?thesis using Suc.IH step \<open>I t\<close> by blast
      qed
    qed
  qed
qed

text \<open>
  Whatever the octree, the ray and the cylinder test, a result of
  \<open>raySearch\<close> starts with the points stored at the root node, each
  paired with the location code 1: the test plays no part in them.
\<close>

lemma raySearch_prefix:
  assumes "raySearch fuel cylinderTest this raycaster = Some result"
    and "points this 1 = Some (Some ps)"
  shows "\<exists>rest. result = map (\<lambda>p. (p, 1)) ps @ rest"
proof -
  let ?cb = "\<lambda>pts aabb lc result.
              case pts of
                Some (Some ps) \<Rightarrow> result @ map (\<lambda>p. (p, lc)) ps
              | _ \<Rightarrow> result"
  have t: "traverseIf fuel this ?cb (\<lambda>aabb lc. cylinderTest raycaster aabb) 1
             (map (\<lambda>p. (p, 1)) ps) = Some result"
    using assms by (simp add: raySearch_def)
  show ?thesis
  proof (rule traverseIf_invariant [OF t])
    show "\<exists>rest. map (\<lambda>p. (p, 1)) ps = map (\<lambda>p. (p, 1)) ps @ rest" by simp
  next
    fix pts :: "nat list option option" and box :: AABB and k :: loccode
      and s :: "(nat \<times> loccode) list"
    assume "\<exists>rest. s = map (\<lambda>p. (p, 1)) ps @ rest"
    then show "\<exists>rest. ?cb pts box k s = map (\<lambda>p. (p, 1)) ps @ rest"
      by (auto split: option.splits)
  qed
qed

lemma raySearch_lineState: "raySearch 1 (\<lambda>r b. False) lineState () = Some [(1, 1), (2, 1)]"
  by (simp add: raySearch_def lineState_def upt8 Let_def cong: forEach_weak_cong)

section \<open>Invariants of build\<close>

lemma build_Suc:
  "build (Suc fuel) this pointIndices vertices aabb lc =
     (if stops this pointIndices lc then Some (leafOf this aabb lc pointIndices)
      else forEach (childBody fuel pointIndices vertices (setLocCode aabb lc) lc) [0..<8]
             (enter this aabb lc))"
  unfolding childBody_def [abs_def] childCount_def childPoints_def
  by (simp add: Let_def stops_def leafOf_def enter_def filter_map comp_def)

lemma build_rule:
  assumes b: "build fuel this pointIndices vertices aabb lc = Some this'"
    and P: "P this" and Q: "Q lc"
    and T: "threshold this = T" and D: "maxDepth this = D"
    and leaf: "\<And>s c b ps. P s \<Longrightarrow> Q c \<Longrightarrow> threshold s = T \<Longrightarrow> maxDepth s = D
                 \<Longrightarrow> stops s ps c \<Longrightarrow> P (leafOf s b c ps)"
    and node: "\<And>s c b ps. P s \<Longrightarrow> Q c \<Longrightarrow> threshold s = T \<Longrightarrow> maxDepth s = D
                 \<Longrightarrow> \<not> stops s ps c \<Longrightarrow> P (enter s b c)"
    and child: "\<And>c i. Q c \<Longrightarrow> i < 8 \<Longrightarrow> \<not> getDepth c \<ge> of_nat D
                 \<Longrightarrow> Q (generateLocCode c (of_nat i))"
  shows "P this' \<and> threshold this' = T \<and> maxDepth this' = D"
  using b P Q T D
proof (induction fuel arbitrary: this pointIndices aabb lc this')
  case 0
  then show ?case by simp
next
  case (Suc fuel)
  show ?case
  proof (cases "stops this pointIndices lc")
    case True
    then have "this' = leafOf this aabb lc pointIndices"
      using Suc.prems(1) by (simp add: build_Suc del: build.simps)
    then show ?thesis
      using leaf [OF Suc.prems(2,3,4,5) True] Suc.prems(4,5) by (simp add: leafOf_def)
  next
    case False
    then have f: "forEach (childBody fuel pointIndices vertices (setLocCode aabb lc) lc) [0..<8]
                    (enter this aabb lc) = Some this'"
      using Suc.prems(1) by (simp add: build_Suc del: build.simps)
    have deep: "\<not> getDepth lc \<ge> of_nat D"
      using False Suc.prems(5) by (simp add: stops_def)
    show ?thesis
    proof (rule forEach_invariant [OF f])
      show "P (enter this aabb lc) \<and> threshold (enter this aabb lc) = T
            \<and> maxDepth (enter this aabb lc) = D"
        using node [OF Suc.prems(2,3,4,5) False] Suc.prems(4,5) by (simp add: enter_def)
    next
      fix s i s'
      assume i: "i \<in> set [0..<8]"
        and s: "P s \<and> threshold s = T \<and> maxDepth s = D"
        and c: "childBody fuel pointIndices vertices (setLocCode aabb lc) lc s i = Some s'"
      show "P s' \<and> threshold s' = T \<and> maxDepth s' = D"
      proof (cases "childCount vertices (setLocCode aabb lc) pointIndices i = 0")
        case True
        then show ?thesis using c s by (simp add: childBody_def)
      next
        case False
        then have "build fuel s (childPoints vertices (setLocCode aabb lc) pointIndices i)
                     vertices (nextAabb (setLocCode aabb lc) i) (generateLocCode lc (of_nat i)) = Some s'"
          using c by (simp add: childBody_def)
        moreover have "Q (generateLocCode lc (of_nat i))"
          using child [OF Suc.prems(3) _ deep] i by simp
        ultimately show ?thesis using Suc.IH s by blast
      qed
    qed
  qed
qed


lemma word_of_nat_less_8: "i < 8 \<Longrightarrow> (of_nat i :: loccode) < 8"
  by (simp add: word_less_nat_alt unat_of_nat)

lemma floorlog_8: 
  assumes "0 < n" "i < 8"
  shows "floorlog 2 (8 * n + i) = floorlog 2 n + 3"
proof -
  have a: "floorlog 2 (8 * n + i) = floorlog 2 ((8 * n + i) div 2) + 1"
    using assms by (subst compute_floorlog) simp
  have b: "floorlog 2 ((8 * n + i) div 2) = floorlog 2 ((8 * n + i) div 2 div 2) + 1"
    using assms by (subst compute_floorlog) simp
  have c: "floorlog 2 ((8 * n + i) div 2 div 2) = floorlog 2 ((8 * n + i) div 2 div 2 div 2) + 1"
    using assms by (subst compute_floorlog) simp
  have "(8 * n + i) div 2 div 2 div 2 = n"
    using assms by (simp add: div_mult2_eq [symmetric])
  then show ?thesis using a b c by simp
qed

lemma msb_child:
  fixes c i :: loccode
  assumes "c \<noteq> 0" "unat c < 2 ^ 29" "i < 8"
  shows "msb (push_bit 3 c OR i) = msb c + 3"
proof -
  have "0 < unat c" using assms(1) by (simp add: unat_gt_0)
  moreover have "unat i < 8" using assms(3) by (simp add: word_less_nat_alt)
  ultimately show ?thesis
    using assms(2,3) by (simp add: msb_def unat_child floorlog_8)
qed

lemma msb_nonzero: "msb c \<ge> 0 \<longleftrightarrow> c \<noteq> 0"
proof -
  have "msb c \<ge> -1" by (simp add: msb_def)
  then show ?thesis using msb_minus1_iff [of c] by linarith
qed

text \<open>A code of depth \<open>d\<close>: its highest set bit is at index \<open>3 * d\<close>.\<close>

lemma child_depth:
  fixes c :: loccode
  assumes "msb c = 3 * int d" "d < 10" "i < 8"
  shows "msb (generateLocCode c (of_nat i)) = 3 * int (Suc d)"
proof -
  have nz: "c \<noteq> 0" using assms(1) msb_nonzero [of c] by simp
  have "msb c \<le> int 29 - 1" using assms(1,2) by simp
  then have "unat c < 2 ^ 29" by (simp only: msb_le_iff)
  then have "msb (push_bit 3 c OR of_nat i) = msb c + 3"
    using nz assms(3) by (intro msb_child word_of_nat_less_8)
  then show ?thesis
    using nz assms(1) by (simp add: generateLocCode_def msb_minus1_iff)
qed


lemma getDepth_ge: "getDepth c \<ge> of_nat D \<longleftrightarrow> msb c \<ge> 3 * int D"
proof -
  have "getDepth c \<ge> of_nat D \<longleftrightarrow> (of_int (msb c) :: rat) \<ge> of_int (3 * int D)"
    by (simp add: getDepth_def mult.commute)
  then show ?thesis by (simp only: of_int_le_iff)
qed



lemma msb_1: "msb 1 = 0"
  by (simp add: msb_def compute_floorlog)


lemma build_dom:
  assumes b: "build fuel this pointIndices vertices aabb lc = Some this'"
    and "dom (points this) = dom (aabbs this)"
  shows "dom (points this') = dom (aabbs this')"
proof -
  have "dom (points this') = dom (aabbs this') \<and> threshold this' = threshold this
        \<and> maxDepth this' = maxDepth this"
    by (rule build_rule [OF b, where P = "\<lambda>s :: Octree. dom (points s) = dom (aabbs s)" and Q = "\<lambda>c. True"])
       (use assms(2) in \<open>auto simp: leafOf_def enter_def\<close>)
  then show ?thesis by simp
qed

section \<open>Ancestors and subtrees\<close>

lemma unat_getParent: "unat (getParent k) = unat k div 8"
  by (simp add: getParent_def drop_bit_eq_div unat_div)

lemma unat_getParent_pow_le: "unat ((getParent ^^ n) k) \<le> unat k"
proof (induction n)
  case 0
  then show ?case by simp
next
  case (Suc n)
  have "unat ((getParent ^^ Suc n) k) = unat ((getParent ^^ n) k) div 8"
    by (simp add: unat_getParent)
  then show ?case using Suc by (simp add: div_le_dividend le_trans)
qed

lemma beneath_refl: "beneath c c"
  unfolding beneath_def by (rule exI [of _ 0]) simp

lemma beneath_parent: "beneath c k \<Longrightarrow> beneath (getParent c) k"
  unfolding beneath_def
proof -
  assume "\<exists>n. (getParent ^^ n) k = c"
  then obtain n where "(getParent ^^ n) k = c" ..
  then have "(getParent ^^ Suc n) k = getParent c" by simp
  then show "\<exists>n. (getParent ^^ n) k = getParent c" ..
qed

lemma beneath_getParent:
  assumes "beneath c k" "k \<noteq> c"
  shows "beneath c (getParent k)"
proof -
  obtain n where n: "(getParent ^^ n) k = c" using assms(1) unfolding beneath_def ..
  then have "n \<noteq> 0" using assms(2) by (cases n) auto
  then obtain m where m: "n = Suc m" by (cases n) auto
  have "(getParent ^^ m) (getParent k) = c"
    using n unfolding m by (simp add: funpow_swap1)
  then show ?thesis unfolding beneath_def ..
qed

lemma beneath_child_of:
  assumes "beneath c k" "getParent k' = k"
  shows "beneath c k'"
proof -
  obtain n where n: "(getParent ^^ n) k = c" using assms(1) unfolding beneath_def ..
  have "(getParent ^^ Suc n) k' = c"
    using n assms(2) by (simp add: funpow_swap1)
  then show ?thesis unfolding beneath_def ..
qed

lemma beneath_trans:
  assumes "beneath a b" "beneath b c"
  shows "beneath a c"
proof -
  obtain n m where "(getParent ^^ n) b = a" "(getParent ^^ m) c = b"
    using assms unfolding beneath_def by blast
  then have "(getParent ^^ (n + m)) c = a" by (simp add: funpow_add)
  then show ?thesis unfolding beneath_def by blast
qed

lemma beneath_unat_le: "beneath c k \<Longrightarrow> unat c \<le> unat k"
  unfolding beneath_def using unat_getParent_pow_le by auto

lemma childCode_generate:
  "c \<noteq> 0 \<Longrightarrow> generateLocCode c (of_nat i) = childCode c i"
  by (simp add: generateLocCode_def childCode_def msb_minus1_iff)

lemma unat_childCode:
  assumes "unat c < 2 ^ 29" "i < 8"
  shows "unat (childCode c i) = 8 * unat c + i"
proof -
  have "(of_nat i :: loccode) < 8" using assms(2) by (rule word_of_nat_less_8)
  then show ?thesis
    using assms unat_child [of c "of_nat i"] by (simp add: childCode_def unat_of_nat)
qed

lemma getParent_childCode:
  assumes "unat c < 2 ^ 29" "i < 8"
  shows "getParent (childCode c i) = c"
  unfolding childCode_def using assms by (intro getParent_child word_of_nat_less_8)

lemma beneath_childCode:
  assumes "unat c < 2 ^ 29" "i < 8" "beneath (childCode c i) k"
  shows "beneath c k"
  using beneath_parent [OF assms(3)] getParent_childCode [OF assms(1,2)] by simp

lemma beneath_childCode_neq:
  assumes "c \<noteq> 0" "unat c < 2 ^ 29" "i < 8" "beneath (childCode c i) k"
  shows "k \<noteq> c"
proof
  assume "k = c"
  then have "unat (childCode c i) \<le> unat c" using beneath_unat_le [OF assms(4)] by simp
  moreover have "0 < unat c" using assms(1) by (simp add: unat_gt_0)
  ultimately show False using unat_childCode [OF assms(2,3)] by simp
qed

lemma beneath_childCode_disjoint:
  assumes c: "c \<noteq> 0" "unat c < 2 ^ 29" and ij: "i < 8" "j < 8" "i \<noteq> j"
    and ui: "beneath (childCode c i) k" and uj: "beneath (childCode c j) k"
  shows False
proof -
  have pos: "0 < unat c" using c(1) by (simp add: unat_gt_0)
  have a: False
    if n: "(getParent ^^ n) k = childCode c i'" and m: "(getParent ^^ m) k = childCode c j'"
      and "n < m" "i' < 8" "j' < 8" for n m i' j'
  proof -
    obtain e where e: "m = Suc e + n" using \<open>n < m\<close> by (metis add_Suc less_imp_Suc_add add.commute)
    have "(getParent ^^ m) k = (getParent ^^ e) (getParent ((getParent ^^ n) k))"
      unfolding e by (simp add: funpow_add funpow_swap1)
    also have "\<dots> = (getParent ^^ e) c"
      using n getParent_childCode [OF c(2) \<open>i' < 8\<close>] by simp
    finally have "unat (childCode c j') \<le> unat c"
      using m unat_getParent_pow_le [of e c] by simp
    then show False using unat_childCode [OF c(2) \<open>j' < 8\<close>] pos by simp
  qed
  obtain n where n: "(getParent ^^ n) k = childCode c i" using ui unfolding beneath_def ..
  obtain m where m: "(getParent ^^ m) k = childCode c j" using uj unfolding beneath_def ..
  consider "n < m" | "m < n" | "n = m" by linarith
  then show False
  proof cases
    case 1
    then show ?thesis using a [OF n m _ ij(1,2)] by simp
  next
    case 2
    then show ?thesis using a [OF m n _ ij(2,1)] by simp
  next
    case 3
    then have "unat (childCode c i) = unat (childCode c j)" using n m by simp
    then show ?thesis using unat_childCode [OF c(2)] ij by simp
  qed
qed

lemma childCode_of_parent:
  "\<exists>i<8. childCode (getParent k) i = k"
proof -
  let ?i = "unat k mod 8"
  have i: "?i < 8" by simp
  have "unat k < 2 ^ 32" using unsigned_less [of k, where ?'a = nat] by simp
  then have p: "unat (getParent k) < 2 ^ 29"
    by (simp add: unat_getParent)
  have "unat (childCode (getParent k) ?i) = unat k"
    using unat_childCode [OF p i] by (simp add: unat_getParent)
  then have "childCode (getParent k) ?i = k" by (simp add: word_unat_eq_iff)
  then show ?thesis using i by blast
qed

lemma beneath_strict_child:
  assumes "beneath c k" "k \<noteq> c"
  shows "\<exists>i<8. beneath (childCode c i) k"
proof -
  obtain n where n: "(getParent ^^ n) k = c" using assms(1) unfolding beneath_def ..
  then have "n \<noteq> 0" using assms(2) by (cases n) auto
  then obtain m where m: "n = Suc m" by (cases n) auto
  let ?k = "(getParent ^^ m) k"
  have "getParent ?k = c" using n unfolding m by simp
  then obtain i where "i < 8" "childCode c i = ?k" using childCode_of_parent [of ?k] by auto
  then have "beneath (childCode c i) k" unfolding beneath_def by auto
  then show ?thesis using \<open>i < 8\<close> by blast
qed

lemma getParent_neq_self: "k \<noteq> 0 \<Longrightarrow> getParent k \<noteq> k"
proof
  assume "k \<noteq> 0" "getParent k = k"
  then have "unat k div 8 = unat k" "0 < unat k"
    using unat_getParent [of k] by (simp_all add: unat_gt_0)
  then show False by simp
qed

section \<open>The loop over the octants\<close>

lemma forEach_prefix_aux:
  assumes "forEach body is s = Some s'" and "I pre s"
    and "\<And>done i t t'. I done t \<Longrightarrow> i \<in> set is \<Longrightarrow> body t i = Some t'
            \<Longrightarrow> (\<exists>rest. pre @ is = done @ i # rest) \<Longrightarrow> I (done @ [i]) t'"
  shows "I (pre @ is) s'"
  using assms
proof (induction "is" arbitrary: pre s)
  case Nil
  then show ?case by simp
next
  case (Cons i "is")
  from Cons.prems(1) obtain s1 where s1: "body s i = Some s1" "forEach body is s1 = Some s'"
    by (auto split: option.splits)
  have I1: "I (pre @ [i]) s1"
    using Cons.prems(3) [OF Cons.prems(2) _ s1(1)] by simp
  have "I ((pre @ [i]) @ is) s'"
  proof (rule Cons.IH [OF s1(2) I1])
    fix dn j t t'
    assume "I dn t" "j \<in> set is" "body t j = Some t'" "\<exists>rest. (pre @ [i]) @ is = dn @ j # rest"
    then show "I (dn @ [j]) t'" using Cons.prems(3) [of dn t j t'] by simp
  qed
  then show ?case by simp
qed

lemma forEach_prefix:
  assumes "forEach body is s = Some s'" and "I [] s"
    and "\<And>done i t t'. I done t \<Longrightarrow> i \<in> set is \<Longrightarrow> body t i = Some t'
            \<Longrightarrow> (\<exists>rest. is = done @ i # rest) \<Longrightarrow> I (done @ [i]) t'"
  shows "I is s'"
  using forEach_prefix_aux [OF assms(1), where I = I and pre = "[]"] assms(2,3) by simp

lemma octant_less_8: "octant vertices aabb p < 8"
  by (simp add: octant_def Let_def)

lemma childPoints_filter:
  "childPoints vertices aabb pointIndices i = filter (\<lambda>p. octant vertices aabb p = i) pointIndices"
  unfolding childPoints_def nextPoints_def
  by (induction pointIndices) auto

lemma childCount_filter:
  "childCount vertices aabb pointIndices i
   = length (filter (\<lambda>p. octant vertices aabb p = i) pointIndices)"
  unfolding childCount_def by (induction pointIndices) auto

lemma childCount_0: "childCount vertices aabb pointIndices i = 0
   \<Longrightarrow> childPoints vertices aabb pointIndices i = []"
  by (simp add: childCount_filter childPoints_filter)

lemma childPoints_partition:
  "(\<Sum>i<8. mset (childPoints vertices aabb pointIndices i)) = mset pointIndices"
proof (induction pointIndices)
  case Nil
  then show ?case by (simp add: childPoints_filter)
next
  case (Cons p ps)
  have "(\<Sum>i<8. mset (childPoints vertices aabb (p # ps) i))
        = (\<Sum>i<8. (if octant vertices aabb p = i then {#p#} else {#})
                    + mset (childPoints vertices aabb ps i))"
    by (intro sum.cong) (auto simp: childPoints_filter)
  also have "\<dots> = (\<Sum>i<8. (if octant vertices aabb p = i then {#p#} else {#}))
                  + (\<Sum>i<8. mset (childPoints vertices aabb ps i))"
    by (simp add: sum.distrib)
  also have "(\<Sum>i<8. (if octant vertices aabb p = i then {#p#} else {#})) = {#p#}"
    using octant_less_8 [of vertices aabb p] by (simp add: sum.delta')
  finally show ?case using Cons.IH by simp
qed

lemma childCount_exists:
  assumes "pointIndices \<noteq> []"
  shows "\<exists>i<8. childCount vertices aabb pointIndices i \<noteq> 0"
proof -
  obtain p ps where "pointIndices = p # ps" using assms by (cases pointIndices) auto
  then have "childCount vertices aabb pointIndices (octant vertices aabb p) \<noteq> 0"
    by (simp add: childCount_filter)
  then show ?thesis using octant_less_8 by blast
qed

lemma subtreeOK_cong:
  assumes "\<And>k. beneath c k \<Longrightarrow> aabbs s k = aabbs s' k \<and> points s k = points s' k"
    and T: "threshold s = threshold s'"
  shows "subtreeOK D s c M = subtreeOK D s' c M"
proof -
  have dom: "k \<in> dom (aabbs s) \<longleftrightarrow> k \<in> dom (aabbs s')" if "beneath c k" for k
    using assms(1) [OF that] by (simp add: dom_def)
  have pts: "points s k = points s' k" if "beneath c k" for k
    using assms(1) [OF that] by simp
  have par: "getParent k \<in> dom (aabbs s) \<longleftrightarrow> getParent k \<in> dom (aabbs s')"
    if "beneath c k" "k \<noteq> c" for k
    using dom [OF beneath_getParent [OF that]] .
  have ex: "(\<exists>k' \<in> dom (aabbs s). getParent k' = k) \<longleftrightarrow> (\<exists>k' \<in> dom (aabbs s'). getParent k' = k)"
    if "beneath c k" for k
    using dom beneath_child_of [OF that] by blast
  have sum: "(\<Sum>k | beneath c k. leafm s k) = (\<Sum>k | beneath c k. leafm s' k)"
    by (intro sum.cong) (auto simp: leafm_def pts)
  have c1: "(c \<in> dom (aabbs s)) = (c \<in> dom (aabbs s'))"
    using dom [OF beneath_refl] .
  have c2: "(\<forall>k. beneath c k \<and> k \<in> dom (aabbs s) \<longrightarrow> (\<exists>d \<le> D. msb k = 3 * int d))
          = (\<forall>k. beneath c k \<and> k \<in> dom (aabbs s') \<longrightarrow> (\<exists>d \<le> D. msb k = 3 * int d))"
    using dom by blast
  have c3: "(\<forall>k. beneath c k \<and> k \<in> dom (aabbs s) \<and> k \<noteq> c \<longrightarrow> getParent k \<in> dom (aabbs s))
          = (\<forall>k. beneath c k \<and> k \<in> dom (aabbs s') \<and> k \<noteq> c \<longrightarrow> getParent k \<in> dom (aabbs s'))"
    using dom par by blast
  have c4: "(\<forall>k. beneath c k \<and> k \<in> dom (aabbs s) \<longrightarrow>
              (points s k = Some None \<longleftrightarrow> (\<exists>k' \<in> dom (aabbs s). getParent k' = k))
              \<and> points s k \<noteq> None)
          = (\<forall>k. beneath c k \<and> k \<in> dom (aabbs s') \<longrightarrow>
              (points s' k = Some None \<longleftrightarrow> (\<exists>k' \<in> dom (aabbs s'). getParent k' = k))
              \<and> points s' k \<noteq> None)"
  proof (intro iff_allI)
    fix k
    show "(beneath c k \<and> k \<in> dom (aabbs s) \<longrightarrow>
              (points s k = Some None \<longleftrightarrow> (\<exists>k' \<in> dom (aabbs s). getParent k' = k))
              \<and> points s k \<noteq> None)
          = (beneath c k \<and> k \<in> dom (aabbs s') \<longrightarrow>
              (points s' k = Some None \<longleftrightarrow> (\<exists>k' \<in> dom (aabbs s'). getParent k' = k))
              \<and> points s' k \<noteq> None)"
    proof (cases "beneath c k")
      case True
      show ?thesis using dom [OF True] pts [OF True] ex [OF True] by simp
    next
      case False
      then show ?thesis by simp
    qed
  qed
  have lb: "leavesBeneath s k = leavesBeneath s' k" if k: "beneath c k" for k
    unfolding leavesBeneath_def
  proof (intro sum.cong refl)
    fix k'
    assume "k' \<in> {k'. beneath k k'}"
    then have "beneath c k'" using k beneath_trans by blast
    then show "leafm s k' = leafm s' k'" by (simp add: leafm_def pts)
  qed
  have c5: "(\<forall>k. beneath c k \<and> k \<in> dom (aabbs s) \<longrightarrow>
              ((\<exists>xs. points s k = Some (Some xs))
                \<longleftrightarrow> size (leavesBeneath s k) \<le> threshold s \<or> msb k \<ge> 3 * int D))
          = (\<forall>k. beneath c k \<and> k \<in> dom (aabbs s') \<longrightarrow>
              ((\<exists>xs. points s' k = Some (Some xs))
                \<longleftrightarrow> size (leavesBeneath s' k) \<le> threshold s' \<or> msb k \<ge> 3 * int D))"
  proof (intro iff_allI)
    fix k
    show "(beneath c k \<and> k \<in> dom (aabbs s) \<longrightarrow>
              ((\<exists>xs. points s k = Some (Some xs))
                \<longleftrightarrow> size (leavesBeneath s k) \<le> threshold s \<or> msb k \<ge> 3 * int D))
          = (beneath c k \<and> k \<in> dom (aabbs s') \<longrightarrow>
              ((\<exists>xs. points s' k = Some (Some xs))
                \<longleftrightarrow> size (leavesBeneath s' k) \<le> threshold s' \<or> msb k \<ge> 3 * int D))"
    proof (cases "beneath c k")
      case True
      show ?thesis using dom [OF True] pts [OF True] lb [OF True] T by simp
    next
      case False
      then show ?thesis by simp
    qed
  qed
  show ?thesis
    unfolding subtreeOK_def sum c1 c2 c3 c4 c5 ..
qed

section \<open>The subtree a build leaves behind\<close>

lemma enter_other: "k \<noteq> c \<Longrightarrow> aabbs (enter s b c) k = aabbs s k \<and> points (enter s b c) k = points s k"
  by (simp add: enter_def)

lemma enter_self: "aabbs (enter s b c) c = Some (setLocCode b c) \<and> points (enter s b c) c = Some None"
  by (simp add: enter_def)

lemma leafOf_other: "k \<noteq> c \<Longrightarrow> aabbs (leafOf s b c ps) k = aabbs s k \<and> points (leafOf s b c ps) k = points s k"
  by (simp add: leafOf_def)

lemma leafOf_self: "aabbs (leafOf s b c ps) c = Some (setLocCode b c) \<and> points (leafOf s b c ps) c = Some (Some ps)"
  by (simp add: leafOf_def)

lemma subtreeOK_leaf:
  assumes lc: "msb lc = 3 * int d" "d \<le> D"
    and fresh: "\<And>k. beneath lc k \<Longrightarrow> aabbs this k = None \<and> points this k = None"
    and st: "length pts \<le> threshold this \<or> msb lc \<ge> 3 * int D"
  shows "subtreeOK D (leafOf this bx lc pts) lc (mset pts)"
proof -
  let ?s = "leafOf this bx lc pts"
  have nz: "lc \<noteq> 0" using lc(1) msb_nonzero [of lc] by simp
  have other: "aabbs ?s k = None \<and> points ?s k = None" if "beneath lc k" "k \<noteq> lc" for k
    using leafOf_other [OF that(2)] fresh [OF that(1)] by simp
  have only: "k = lc" if "beneath lc k" "k \<in> dom (aabbs ?s)" for k
  proof (rule ccontr)
    assume "k \<noteq> lc"
    then have "aabbs ?s k = None" using other [OF that(1)] by simp
    then show False using that(2) by (simp add: dom_def)
  qed
  have nochild: "\<not> (\<exists>k' \<in> dom (aabbs ?s). getParent k' = lc)"
  proof
    assume "\<exists>k' \<in> dom (aabbs ?s). getParent k' = lc"
    then obtain k' where k': "k' \<in> dom (aabbs ?s)" "getParent k' = lc" by blast
    have "beneath lc k'" using beneath_child_of [OF beneath_refl k'(2)] .
    then have "k' = lc" using only k'(1) by blast
    then show False using k'(2) getParent_neq_self [OF nz] by simp
  qed
  have "(\<Sum>k | beneath lc k. leafm ?s k) = (\<Sum>k \<in> {lc}. leafm ?s k)"
  proof (rule sum.mono_neutral_right)
    show "finite {k. beneath lc k}" by simp
    show "{lc} \<subseteq> {k. beneath lc k}" by (simp add: beneath_refl)
    show "\<forall>k \<in> {k. beneath lc k} - {lc}. leafm ?s k = {#}"
      using other by (auto simp: leafm_def)
  qed
  then have sum: "(\<Sum>k | beneath lc k. leafm ?s k) = mset pts"
    by (simp add: leafm_def leafOf_def)
  have "lc \<in> dom (aabbs ?s)" by (simp add: leafOf_def)
  moreover have "\<exists>d \<le> D. msb k = 3 * int d" if "beneath lc k \<and> k \<in> dom (aabbs ?s)" for k
    using only that lc by blast
  moreover have "getParent k \<in> dom (aabbs ?s)"
    if "beneath lc k \<and> k \<in> dom (aabbs ?s) \<and> k \<noteq> lc" for k
    using only that by blast
  moreover have "(points ?s k = Some None \<longleftrightarrow> (\<exists>k' \<in> dom (aabbs ?s). getParent k' = k))
                 \<and> points ?s k \<noteq> None"
    if "beneath lc k \<and> k \<in> dom (aabbs ?s)" for k
  proof -
    have "k = lc" using only that by blast
    then show ?thesis using nochild by (simp add: leafOf_def)
  qed
  moreover have "(\<exists>xs. points ?s k = Some (Some xs))
                 \<longleftrightarrow> size (leavesBeneath ?s k) \<le> threshold ?s \<or> msb k \<ge> 3 * int D"
    if "beneath lc k \<and> k \<in> dom (aabbs ?s)" for k
  proof -
    have "k = lc" using only that by blast
    moreover have "size (leavesBeneath ?s lc) = length pts"
      using sum by (simp add: leavesBeneath_def)
    moreover have "threshold ?s = threshold this" by (simp add: leafOf_def)
    ultimately show ?thesis using st by (simp add: leafOf_def)
  qed
  ultimately show ?thesis unfolding subtreeOK_def using sum by blast
qed

lemma code_bounds:
  assumes "msb lc = 3 * int d" "d < 10"
  shows "lc \<noteq> 0" "unat lc < 2 ^ 29"
proof -
  show "lc \<noteq> 0" using assms(1) msb_nonzero [of lc] by simp
  have "msb lc \<le> int 29 - 1" using assms by simp
  then show "unat lc < 2 ^ 29" by (simp only: msb_le_iff)
qed

lemma subtreeOK_node:
  assumes lc: "msb lc = 3 * int d" "d < D" "D \<le> 10"
    and fresh: "\<And>k. beneath lc k \<Longrightarrow> aabbs this k = None \<and> points this k = None"
    and a: "\<And>k. (\<forall>j<8. cnt j \<noteq> (0::nat) \<longrightarrow> \<not> beneath (childCode lc j) k)
              \<Longrightarrow> aabbs s k = aabbs (enter this bx lc) k \<and> points s k = points (enter this bx lc) k"
    and b: "\<And>j. j < 8 \<Longrightarrow> cnt j \<noteq> 0 \<Longrightarrow> subtreeOK D s (childCode lc j) (M j)"
    and z: "\<And>j. j < 8 \<Longrightarrow> cnt j = 0 \<Longrightarrow> M j = {#}"
    and ex: "\<exists>j<8. cnt j \<noteq> 0"
    and big: "threshold s < size (\<Sum>j<8. M j)"
  shows "subtreeOK D s lc (\<Sum>j<8. M j)
       \<and> (\<forall>k. \<not> beneath lc k \<longrightarrow> aabbs s k = aabbs this k \<and> points s k = points this k)"
proof -
  have d10: "d < 10" using lc(2,3) by simp
  note nz = code_bounds(1) [OF lc(1) d10] and small = code_bounds(2) [OF lc(1) d10]
  let ?ch = "childCode lc"
  have up: "beneath lc k" if "j < 8" "beneath (?ch j) k" for j k
    using beneath_childCode [OF small that] .
  have neq: "k \<noteq> lc" if "j < 8" "beneath (?ch j) k" for j k
    using beneath_childCode_neq [OF nz small that] .
  have disj: "\<not> beneath (?ch j') k" if "j < 8" "j' < 8" "j \<noteq> j'" "beneath (?ch j) k" for j j' k
    using beneath_childCode_disjoint [OF nz small that(1,2,3,4)] by blast
  have par: "getParent (?ch j) = lc" if "j < 8" for j
    using getParent_childCode [OF small that] .
  \<comment> \<open>the node itself\<close>
  have self: "aabbs s lc = Some (setLocCode bx lc)" "points s lc = Some None"
  proof -
    have "\<forall>j<8. cnt j \<noteq> 0 \<longrightarrow> \<not> beneath (?ch j) lc" using neq by blast
    from a [OF this] show "aabbs s lc = Some (setLocCode bx lc)" "points s lc = Some None"
      using enter_self [of this bx lc] by simp_all
  qed
  \<comment> \<open>below an octant without points nothing is recorded\<close>
  have empty: "aabbs s k = None \<and> points s k = None"
    if "j < 8" "cnt j = 0" "beneath (?ch j) k" for j k
  proof -
    have "\<forall>j'<8. cnt j' \<noteq> 0 \<longrightarrow> \<not> beneath (?ch j') k"
      using disj [OF that(1) _ _ that(3)] that(2) by metis
    from a [OF this] show ?thesis
      using enter_other [OF neq [OF that(1,3)], of this bx] fresh [OF up [OF that(1,3)]] by simp
  qed
  have frame: "aabbs s k = aabbs this k \<and> points s k = points this k" if "\<not> beneath lc k" for k
  proof -
    have "\<forall>j<8. cnt j \<noteq> 0 \<longrightarrow> \<not> beneath (?ch j) k" using up that by blast
    moreover have "k \<noteq> lc" using that beneath_refl by blast
    ultimately show ?thesis using a [of k] enter_other [of k lc this bx] by simp
  qed
  \<comment> \<open>a recorded node below the node lies in the subtree of an octant with points\<close>
  have below: "\<exists>j<8. cnt j \<noteq> 0 \<and> beneath (?ch j) k"
    if u: "beneath lc k" "k \<noteq> lc" and kd: "k \<in> dom (aabbs s)" for k
  proof -
    obtain j where j: "j < 8" "beneath (?ch j) k" using beneath_strict_child [OF u] by blast
    have "cnt j \<noteq> 0"
    proof
      assume "cnt j = 0"
      from empty [OF j(1) this j(2)] show False using kd by (simp add: dom_def)
    qed
    then show ?thesis using j by blast
  qed
  have 1: "lc \<in> dom (aabbs s)" using self(1) by (simp add: dom_def)
  have 2: "\<exists>d' \<le> D. msb k = 3 * int d'" if k: "beneath lc k \<and> k \<in> dom (aabbs s)" for k
  proof (cases "k = lc")
    case True
    then show ?thesis using lc(1,2) by (intro exI [of _ d]) simp
  next
    case False
    then obtain j where j: "j < 8" "cnt j \<noteq> 0" "beneath (?ch j) k" using below k by blast
    then show ?thesis using b [OF j(1,2)] k unfolding subtreeOK_def by blast
  qed
  have 3: "getParent k \<in> dom (aabbs s)" if k: "beneath lc k \<and> k \<in> dom (aabbs s) \<and> k \<noteq> lc" for k
  proof -
    obtain j where j: "j < 8" "cnt j \<noteq> 0" "beneath (?ch j) k" using below k by blast
    show ?thesis
    proof (cases "k = ?ch j")
      case True
      then show ?thesis using par [OF j(1)] 1 by simp
    next
      case False
      then show ?thesis using b [OF j(1,2)] k j(3) unfolding subtreeOK_def by blast
    qed
  qed
  have 4: "(points s k = Some None \<longleftrightarrow> (\<exists>k' \<in> dom (aabbs s). getParent k' = k))
           \<and> points s k \<noteq> None"
    if k: "beneath lc k \<and> k \<in> dom (aabbs s)" for k
  proof (cases "k = lc")
    case True
    obtain j where j: "j < 8" "cnt j \<noteq> 0" using ex by blast
    have "?ch j \<in> dom (aabbs s)" using b [OF j] unfolding subtreeOK_def by blast
    then have "\<exists>k' \<in> dom (aabbs s). getParent k' = lc" using par [OF j(1)] by blast
    then show ?thesis using True self(2) by simp
  next
    case False
    then obtain j where j: "j < 8" "cnt j \<noteq> 0" "beneath (?ch j) k" using below k by blast
    then show ?thesis using b [OF j(1,2)] k unfolding subtreeOK_def by blast
  qed
  \<comment> \<open>the lists\<close>
  have part: "{k. beneath lc k} = insert lc (\<Union>j \<in> {..<8}. {k. beneath (?ch j) k})"
  proof (intro set_eqI iffI)
    fix k
    assume "k \<in> {k. beneath lc k}"
    then have k: "beneath lc k" by simp
    show "k \<in> insert lc (\<Union>j \<in> {..<8}. {k. beneath (?ch j) k})"
    proof (cases "k = lc")
      case True
      then show ?thesis by simp
    next
      case False
      then show ?thesis using beneath_strict_child [OF k False] by auto
    qed
  next
    fix k
    assume "k \<in> insert lc (\<Union>j \<in> {..<8}. {k. beneath (?ch j) k})"
    then show "k \<in> {k. beneath lc k}" using beneath_refl up by auto
  qed
  have inner: "(\<Sum>k | beneath (?ch j) k. leafm s k) = M j" if j: "j < 8" for j
  proof (cases "cnt j = 0")
    case True
    have "leafm s k = {#}" if "beneath (?ch j) k" for k
      using empty [OF j True that] by (simp add: leafm_def)
    then show ?thesis using z [OF j True] by simp
  next
    case False
    then show ?thesis using b [OF j False] unfolding subtreeOK_def by blast
  qed
  have "(\<Sum>k | beneath lc k. leafm s k)
        = leafm s lc + (\<Sum>k \<in> (\<Union>j \<in> {..<8}. {k. beneath (?ch j) k}). leafm s k)"
    unfolding part using neq by (subst sum.insert) auto
  also have "leafm s lc = {#}" using self(2) by (simp add: leafm_def)
  also have "(\<Sum>k \<in> (\<Union>j \<in> {..<8}. {k. beneath (?ch j) k}). leafm s k)
             = (\<Sum>j<8. \<Sum>k | beneath (?ch j) k. leafm s k)"
    by (rule sum.UNION_disjoint) (use disj in auto)
  also have "\<dots> = (\<Sum>j<8. M j)"
    by (intro sum.cong) (simp_all add: inner)
  finally have 5: "(\<Sum>k | beneath lc k. leafm s k) = (\<Sum>j<8. M j)" by simp
  have 6: "(\<exists>xs. points s k = Some (Some xs))
           \<longleftrightarrow> size (leavesBeneath s k) \<le> threshold s \<or> msb k \<ge> 3 * int D"
    if k: "beneath lc k \<and> k \<in> dom (aabbs s)" for k
  proof (cases "k = lc")
    case True
    have "threshold s < size (leavesBeneath s lc)" using 5 big by (simp add: leavesBeneath_def)
    moreover have "msb lc < 3 * int D" using lc(1,2) by simp
    ultimately show ?thesis using True self(2) by simp
  next
    case False
    then obtain j where j: "j < 8" "cnt j \<noteq> 0" "beneath (?ch j) k" using below k by blast
    then show ?thesis using b [OF j(1,2)] k unfolding subtreeOK_def by blast
  qed
  show ?thesis unfolding subtreeOK_def using 1 2 3 4 5 6 frame by blast
qed

lemma build_keeps_threshold:
  assumes "build fuel this pointIndices vertices aabb lc = Some this'"
  shows "threshold this' = threshold this"
proof -
  have "True \<and> threshold this' = threshold this \<and> maxDepth this' = maxDepth this"
    by (rule build_rule [OF assms, where P = "\<lambda>s :: Octree. True" and Q = "\<lambda>c. True"]) simp_all
  then show ?thesis by simp
qed

lemma upt8_split:
  assumes "[0..<8] = dn @ i # rest"
  shows "i \<notin> set dn" "\<forall>j \<in> set dn. j < 8" "i < 8"
proof -
  have d: "distinct (dn @ i # rest)" using assms distinct_upt [of 0 8] by simp
  then show "i \<notin> set dn" by auto
  have "set (dn @ i # rest) = {0..<8}" using assms set_upt [of 0 8] by simp
  then show "\<forall>j \<in> set dn. j < 8" "i < 8" by auto
qed

lemma build_subtree:
  assumes "build fuel this pts vs bx lc = Some this'"
    and "maxDepth this = D" "D \<le> 10"
    and "msb lc = 3 * int d" "d \<le> D"
    and "\<And>k. beneath lc k \<Longrightarrow> aabbs this k = None \<and> points this k = None"
  shows "subtreeOK D this' lc (mset pts)
       \<and> (\<forall>k. \<not> beneath lc k \<longrightarrow> aabbs this' k = aabbs this k \<and> points this' k = points this k)
       \<and> maxDepth this' = D"
  using assms
proof (induction fuel arbitrary: this pts bx lc d this')
  case 0
  then show ?case by simp
next
  case (Suc fuel)
  note b = Suc.prems(1) and D = Suc.prems(2,3) and lc = Suc.prems(4,5) and fresh = Suc.prems(6)
  show ?case
  proof (cases "stops this pts lc")
    case True
    then have eq: "this' = leafOf this bx lc pts"
      using b by (simp add: build_Suc del: build.simps)
    have st: "length pts \<le> threshold this \<or> msb lc \<ge> 3 * int D"
      using True D(1) by (simp add: stops_def getDepth_ge)
    have "subtreeOK D this' lc (mset pts)"
      unfolding eq using lc fresh st by (rule subtreeOK_leaf)
    moreover have "aabbs this' k = aabbs this k \<and> points this' k = points this k"
      if "\<not> beneath lc k" for k
    proof -
      have "k \<noteq> lc" using that beneath_refl by blast
      then show ?thesis unfolding eq by (rule leafOf_other)
    qed
    moreover have "maxDepth this' = D" unfolding eq using D(1) by (simp add: leafOf_def)
    ultimately show ?thesis by blast
  next
    case False
    let ?bx = "setLocCode bx lc"
    let ?s0 = "enter this bx lc"
    let ?cnt = "childCount vs ?bx pts"
    let ?cp = "childPoints vs ?bx pts"
    let ?ch = "childCode lc"
    have f: "forEach (childBody fuel pts vs ?bx lc) [0..<8] ?s0 = Some this'"
      using b False by (simp add: build_Suc del: build.simps)
    have "\<not> getDepth lc \<ge> of_nat D" and long: "\<not> length pts \<le> threshold this"
      using False D(1) by (simp_all add: stops_def)
    then have "msb lc < 3 * int D" by (simp add: getDepth_ge)
    then have dD: "d < D" using lc(1) by simp
    then have d10: "d < 10" using D(2) by simp
    note nz = code_bounds(1) [OF lc(1) d10] and small = code_bounds(2) [OF lc(1) d10]
    have gen: "generateLocCode lc (of_nat i) = ?ch i" for i
      using nz by (rule childCode_generate)
    have chd: "msb (?ch i) = 3 * int (Suc d)" if "i < 8" for i
      using child_depth [OF lc(1) d10 that] gen by simp
    have up: "beneath lc k" if "j < 8" "beneath (?ch j) k" for j k
      using beneath_childCode [OF small that] .
    have neq: "k \<noteq> lc" if "j < 8" "beneath (?ch j) k" for j k
      using beneath_childCode_neq [OF nz small that] .
    have disj: "\<not> beneath (?ch j') k"
      if "j < 8" "j' < 8" "j \<noteq> j'" "beneath (?ch j) k" for j j' k
      using beneath_childCode_disjoint [OF nz small that(1,2,3,4)] by blast
    define I where "I = (\<lambda>dn (s :: Octree).
        (\<forall>k. (\<forall>j \<in> set dn. ?cnt j \<noteq> 0 \<longrightarrow> \<not> beneath (?ch j) k)
             \<longrightarrow> aabbs s k = aabbs ?s0 k \<and> points s k = points ?s0 k)
      \<and> (\<forall>j \<in> set dn. ?cnt j \<noteq> 0 \<longrightarrow> subtreeOK D s (?ch j) (mset (?cp j)))
      \<and> maxDepth s = D)"
    have "I [0..<8] this'"
    proof (rule forEach_prefix [OF f])
      show "I [] ?s0" using D(1) by (simp add: I_def enter_def)
    next
      fix dn i t t'
      assume It: "I dn t" and "i \<in> set [0..<8]"
        and body: "childBody fuel pts vs ?bx lc t i = Some t'"
        and "\<exists>rest. [0..<8] = dn @ i # rest"
      then obtain rest where "[0..<8] = dn @ i # rest" by blast
      note sp = upt8_split [OF this]
      have i8: "i < 8" using sp(3) .
      from It have It': "(\<forall>k. (\<forall>j \<in> set dn. ?cnt j \<noteq> 0 \<longrightarrow> \<not> beneath (?ch j) k)
             \<longrightarrow> aabbs t k = aabbs ?s0 k \<and> points t k = points ?s0 k)
          \<and> (\<forall>j \<in> set dn. ?cnt j \<noteq> 0 \<longrightarrow> subtreeOK D t (?ch j) (mset (?cp j)))
          \<and> maxDepth t = D"
        unfolding I_def .
      have Ia: "aabbs t k = aabbs ?s0 k \<and> points t k = points ?s0 k"
        if "\<forall>j \<in> set dn. ?cnt j \<noteq> 0 \<longrightarrow> \<not> beneath (?ch j) k" for k
        using It' [THEN conjunct1, THEN spec, of k] that by (rule mp)
      have Ib: "subtreeOK D t (?ch j) (mset (?cp j))" if "j \<in> set dn" "?cnt j \<noteq> 0" for j
        using It' [THEN conjunct2, THEN conjunct1, THEN bspec, OF that(1)] that(2) by (rule mp)
      have Ic: "maxDepth t = D"
        using It' [THEN conjunct2, THEN conjunct2] .
      have subset: "\<forall>j \<in> set dn. ?cnt j \<noteq> 0 \<longrightarrow> \<not> beneath (?ch j) k"
        if "\<forall>j \<in> set (dn @ [i]). ?cnt j \<noteq> 0 \<longrightarrow> \<not> beneath (?ch j) k" for k
        using that by simp
      show "I (dn @ [i]) t'"
      proof (cases "?cnt i = 0")
        case True
        then have eq: "t' = t" using body by (simp add: childBody_def)
        have a': "aabbs t' k = aabbs ?s0 k \<and> points t' k = points ?s0 k"
          if "\<forall>j \<in> set (dn @ [i]). ?cnt j \<noteq> 0 \<longrightarrow> \<not> beneath (?ch j) k" for k
          unfolding eq using subset [OF that] by (rule Ia)
        have b': "subtreeOK D t' (?ch j) (mset (?cp j))"
          if j: "j \<in> set (dn @ [i])" "?cnt j \<noteq> 0" for j
        proof -
          have "j \<noteq> i" using j(2) True by auto
          then have "j \<in> set dn" using j(1) by simp
          then show ?thesis unfolding eq using j(2) by (rule Ib)
        qed
        have md: "maxDepth t' = D" unfolding eq by (rule Ic)
        have A: "\<forall>k. (\<forall>j \<in> set (dn @ [i]). ?cnt j \<noteq> 0 \<longrightarrow> \<not> beneath (?ch j) k)
             \<longrightarrow> aabbs t' k = aabbs ?s0 k \<and> points t' k = points ?s0 k"
          by (intro allI impI) (rule a')
        have B: "\<forall>j \<in> set (dn @ [i]). ?cnt j \<noteq> 0 \<longrightarrow> subtreeOK D t' (?ch j) (mset (?cp j))"
          by (intro ballI impI) (rule b')
        show ?thesis unfolding I_def using A B md by (intro conjI)
      next
        case False
        then have bi: "build fuel t (?cp i) vs (nextAabb ?bx i) (?ch i) = Some t'"
          using body gen by (simp add: childBody_def)
        have fr: "aabbs t k = None \<and> points t k = None" if k: "beneath (?ch i) k" for k
        proof -
          have "\<forall>j \<in> set dn. ?cnt j \<noteq> 0 \<longrightarrow> \<not> beneath (?ch j) k"
          proof (intro ballI impI)
            fix j assume j: "j \<in> set dn"
            then have "j < 8" "i \<noteq> j" using sp(1,2) by auto
            then show "\<not> beneath (?ch j) k" using disj [OF i8 _ _ k] by blast
          qed
          from Ia [OF this] show ?thesis
            using enter_other [OF neq [OF i8 k], of this bx] fresh [OF up [OF i8 k]] by simp
        qed
        have "Suc d \<le> D" using dD by simp
        from Suc.IH [OF bi Ic D(2) chd [OF i8] this fr]
        have IH: "subtreeOK D t' (?ch i) (mset (?cp i))
          \<and> (\<forall>k. \<not> beneath (?ch i) k \<longrightarrow> aabbs t' k = aabbs t k \<and> points t' k = points t k)
          \<and> maxDepth t' = D" .
        note ok = IH [THEN conjunct1] and md = IH [THEN conjunct2, THEN conjunct2]
        have fm: "aabbs t' k = aabbs t k \<and> points t' k = points t k" if "\<not> beneath (?ch i) k" for k
          using IH [THEN conjunct2, THEN conjunct1, THEN spec, of k] that by (rule mp)
        have a': "aabbs t' k = aabbs ?s0 k \<and> points t' k = points ?s0 k"
          if h: "\<forall>j \<in> set (dn @ [i]). ?cnt j \<noteq> 0 \<longrightarrow> \<not> beneath (?ch j) k" for k
        proof -
          have "\<not> beneath (?ch i) k" using h False by simp
          then show ?thesis using fm [of k] Ia [OF subset [OF h]] by simp
        qed
        have b': "subtreeOK D t' (?ch j) (mset (?cp j))"
          if j: "j \<in> set (dn @ [i])" "?cnt j \<noteq> 0" for j
        proof (cases "j = i")
          case True
          then show ?thesis using ok by simp
        next
          case False
          then have jd: "j \<in> set dn" using j(1) by simp
          then have j8: "j < 8" using sp(2) by blast
          have "subtreeOK D t' (?ch j) (mset (?cp j)) = subtreeOK D t (?ch j) (mset (?cp j))"
          proof (rule subtreeOK_cong)
            fix k
            assume "beneath (?ch j) k"
            then have "\<not> beneath (?ch i) k" using disj [OF j8 i8 False] by blast
            then show "aabbs t' k = aabbs t k \<and> points t' k = points t k" by (rule fm)
          next
            show "threshold t' = threshold t" by (rule build_keeps_threshold [OF bi])
          qed
          then show ?thesis using Ib [OF jd j(2)] by simp
        qed
        have A: "\<forall>k. (\<forall>j \<in> set (dn @ [i]). ?cnt j \<noteq> 0 \<longrightarrow> \<not> beneath (?ch j) k)
             \<longrightarrow> aabbs t' k = aabbs ?s0 k \<and> points t' k = points ?s0 k"
          by (intro allI impI) (rule a')
        have B: "\<forall>j \<in> set (dn @ [i]). ?cnt j \<noteq> 0 \<longrightarrow> subtreeOK D t' (?ch j) (mset (?cp j))"
          by (intro ballI impI) (rule b')
        show ?thesis unfolding I_def using A B md by (intro conjI)
      qed
    qed
    then have F: "(\<forall>k. (\<forall>j \<in> set [0..<8]. ?cnt j \<noteq> 0 \<longrightarrow> \<not> beneath (?ch j) k)
             \<longrightarrow> aabbs this' k = aabbs ?s0 k \<and> points this' k = points ?s0 k)
          \<and> (\<forall>j \<in> set [0..<8]. ?cnt j \<noteq> 0 \<longrightarrow> subtreeOK D this' (?ch j) (mset (?cp j)))
          \<and> maxDepth this' = D"
      unfolding I_def .
    have Fa: "aabbs this' k = aabbs ?s0 k \<and> points this' k = points ?s0 k"
      if h: "\<forall>j<8. ?cnt j \<noteq> 0 \<longrightarrow> \<not> beneath (?ch j) k" for k
    proof -
      have "\<forall>j \<in> set [0..<8]. ?cnt j \<noteq> 0 \<longrightarrow> \<not> beneath (?ch j) k" using h by simp
      with F [THEN conjunct1, THEN spec, of k] show ?thesis by (rule mp)
    qed
    have Fb: "subtreeOK D this' (?ch j) (mset (?cp j))" if "j < 8" "?cnt j \<noteq> 0" for j
    proof -
      have "j \<in> set [0..<8]" using that(1) by simp
      from F [THEN conjunct2, THEN conjunct1, THEN bspec, OF this] that(2) show ?thesis by (rule mp)
    qed
    have Fc: "maxDepth this' = D" using F [THEN conjunct2, THEN conjunct2] .
    have z: "mset (?cp j) = {#}" if "j < 8" "?cnt j = 0" for j
      using childCount_0 [OF that(2)] by simp
    have "pts \<noteq> []" using long by auto
    then have ex: "\<exists>j<8. ?cnt j \<noteq> 0" by (rule childCount_exists)
    have res: "subtreeOK D this' lc (\<Sum>j<8. mset (?cp j))
       \<and> (\<forall>k. \<not> beneath lc k \<longrightarrow> aabbs this' k = aabbs this k \<and> points this' k = points this k)"
    proof (rule subtreeOK_node [where cnt = ?cnt and d = d and bx = bx])
      show "msb lc = 3 * int d" by (rule lc(1))
      show "d < D" by (rule dD)
      show "D \<le> 10" by (rule D(2))
      show "\<And>k. beneath lc k \<Longrightarrow> aabbs this k = None \<and> points this k = None" by (rule fresh)
      show "\<And>k. \<forall>j<8. ?cnt j \<noteq> 0 \<longrightarrow> \<not> beneath (?ch j) k
              \<Longrightarrow> aabbs this' k = aabbs ?s0 k \<and> points this' k = points ?s0 k" by (rule Fa)
      show "\<And>j. j < 8 \<Longrightarrow> ?cnt j \<noteq> 0 \<Longrightarrow> subtreeOK D this' (?ch j) (mset (?cp j))" by (rule Fb)
      show "\<And>j. j < 8 \<Longrightarrow> ?cnt j = 0 \<Longrightarrow> mset (?cp j) = {#}" by (rule z)
      show "\<exists>j<8. ?cnt j \<noteq> 0" by (rule ex)
      show "threshold this' < size (\<Sum>j<8. mset (?cp j))"
        using long build_keeps_threshold [OF b] by (simp add: childPoints_partition)
    qed
    from res have r1: "subtreeOK D this' lc (mset pts)"
      unfolding childPoints_partition by (rule conjunct1)
    from res have r2: "\<forall>k. \<not> beneath lc k \<longrightarrow> aabbs this' k = aabbs this k \<and> points this' k = points this k"
      by (rule conjunct2)
    show ?thesis using r1 r2 Fc by (intro conjI)
  qed
qed

lemma build_root:
  assumes b: "build fuel this pointIndices vertices aabb 1 = Some this'"
    and fresh: "aabbs this = Map.empty" "points this = Map.empty"
    and D: "maxDepth this \<le> 10"
  shows "subtreeOK (maxDepth this) this' 1 (mset pointIndices)"
    and "\<And>k. \<not> beneath 1 k \<Longrightarrow> aabbs this' k = None \<and> points this' k = None"
proof -
  have m: "msb 1 = 3 * int 0" by (simp add: msb_1)
  have f: "\<And>k. beneath 1 k \<Longrightarrow> aabbs this k = None \<and> points this k = None"
    using fresh by simp
  from build_subtree [OF b refl D m _ f]
  have r: "subtreeOK (maxDepth this) this' 1 (mset pointIndices)
       \<and> (\<forall>k. \<not> beneath 1 k \<longrightarrow> aabbs this' k = aabbs this k \<and> points this' k = points this k)
       \<and> maxDepth this' = maxDepth this"
    by simp
  from r show "subtreeOK (maxDepth this) this' 1 (mset pointIndices)" by (rule conjunct1)
  fix k
  assume "\<not> beneath 1 k"
  with r have "aabbs this' k = aabbs this k \<and> points this' k = points this k" by blast
  then show "aabbs this' k = None \<and> points this' k = None" using fresh by simp
qed

lemma fiveState_build:
  "build 5 (new_Octree 2 4) [0, 1, 2, 3, 4] fiveVertices (new_AABB (vec 0 0 0) 8) 1 = Some fiveState"
  using fiveTree_eq by (simp add: fiveTree_def)

lemma new_Octree_fresh:
  "aabbs (new_Octree t d) = Map.empty" "points (new_Octree t d) = Map.empty"
  by (simp_all add: new_Octree_def)

lemma new_Octree_2_4: "maxDepth (new_Octree 2 4) \<le> 10"
  by (simp add: new_Octree_def)

section \<open>Trees deeper than the location code\<close>

lemma wrapped_codes:
  "(16106127360 :: loccode) = 3221225472" "(16106127367 :: loccode) = 3221225479"
  "(11811160064 :: loccode) = 3221225472" "(11811160071 :: loccode) = 3221225479"
  by simp_all

lemma deepTree_eq: "deepTree = Some deepState"
  by (simp add: deepTree_def deepVertices_def deepState_def build_evals wrapped_codes
        cong: forEach_weak_cong)

lemma collideTree_eq: "collideTree = Some collideState"
  by (simp add: collideTree_def collideVertices_def collideState_def build_evals wrapped_codes
        cong: forEach_weak_cong)

section \<open>The leaves hold the input\<close>

lemma leafUnion_collideState: "leafUnion collideState = {#2, 3#}"
  by (simp add: leafUnion_def leafm_def collideState_def)

text \<open>
  C1, as the claim states it, fails when the maximum depth exceeds 10, the
  deepest level a 32-bit location code can address. With a maximum depth of
  11, the pairs of points of \<open>collideVertices\<close> in the octants 3 and 7 both
  reach depth 10 and are split there; shifting the two depth-10 codes left
  by three bits loses the bits that tell them apart, so both pairs of leaves
  get the codes 3221225472 and 3221225479 and the later pair overwrites the
  earlier one. The leaves hold the indices 2 and 3 only.
\<close>

theorem build_leaf_union_counterexample:
  "collideTree = Some collideState
   \<and> maxDepth collideState = 11
   \<and> leafUnion collideState = {#2, 3#}
   \<and> leafUnion collideState \<noteq> mset [0, 1, 2, 3]"
  using collideTree_eq leafUnion_collideState by (simp add: collideState_def)

text \<open>
  C1, amended. For an octree built from empty maps with the root code 1 and
  a maximum depth of at most 10, the multiset union of the point lists stored
  in the points map equals the input indices: every input index is in
  exactly one list, and no other index is.
\<close>

theorem build_leaf_union:
  assumes b: "build fuel this pointIndices vertices aabb 1 = Some this'"
    and fresh: "aabbs this = Map.empty" "points this = Map.empty"
    and D: "maxDepth this \<le> 10"
  shows "leafUnion this' = mset pointIndices"
proof -
  note ok = build_root(1) [OF b fresh D] and out = build_root(2) [OF b fresh D]
  have "leafUnion this' = (\<Sum>k | beneath 1 k. leafm this' k)"
    unfolding leafUnion_def
  proof (rule sum.mono_neutral_left)
    show "finite {k. beneath 1 k}" by simp
    show "dom (points this') \<subseteq> {k. beneath 1 k}"
    proof
      fix k
      assume k: "k \<in> dom (points this')"
      have "beneath 1 k"
      proof (rule ccontr)
        assume "\<not> beneath 1 k"
        from out [OF this] show False using k by (simp add: dom_def)
      qed
      then show "k \<in> {k. beneath 1 k}" by simp
    qed
    show "\<forall>k \<in> {k. beneath 1 k} - dom (points this'). leafm this' k = {#}"
      by (auto simp: leafm_def dom_def)
  qed
  then show ?thesis using ok unfolding subtreeOK_def by simp
qed

theorem build_leaf_union_witness:
  "build 5 (new_Octree 2 4) [0, 1, 2, 3, 4] fiveVertices (new_AABB (vec 0 0 0) 8) 1 = Some fiveState
   \<and> aabbs (new_Octree 2 4) = Map.empty \<and> points (new_Octree 2 4) = Map.empty
   \<and> maxDepth (new_Octree 2 4) \<le> 10
   \<and> leafUnion fiveState = mset [0, 1, 2, 3, 4]"
  using build_leaf_union [OF fiveState_build new_Octree_fresh new_Octree_2_4]
    fiveState_build new_Octree_fresh [of 2 4] new_Octree_2_4 by simp

section \<open>Ancestor closure\<close>

text \<open>
  C10, as the claim states it, fails when the maximum depth exceeds 10. With
  a maximum depth of 11 the two points of \<open>deepVertices\<close> are split at
  depth 10; the code of the resulting leaf, 3221225472, has lost the sentinel
  bit of its parent 2013265920, and its parent code by \<open>getParent\<close>,
  402653184, is not a key of the box map.
\<close>

theorem build_ancestor_closed_counterexample:
  "deepTree = Some deepState
   \<and> maxDepth deepState = 11
   \<and> 3221225472 \<in> dom (aabbs deepState) \<and> (3221225472 :: loccode) \<noteq> 1
   \<and> getParent 3221225472 = 402653184
   \<and> 402653184 \<notin> dom (aabbs deepState)"
  using deepTree_eq by (simp add: deepState_def getParent_def)

text \<open>
  C10, amended. For an octree built from empty maps with the default root
  code 1 and a maximum depth of at most 10, every key of the box map other
  than 1 has its parent code also in the box map, and taking the parent
  repeatedly from any key reaches the root code 1.
\<close>

theorem build_ancestor_closed:
  assumes b: "build fuel this pointIndices vertices aabb 1 = Some this'"
    and fresh: "aabbs this = Map.empty" "points this = Map.empty"
    and D: "maxDepth this \<le> 10"
  shows "\<forall>k \<in> dom (aabbs this').
           (k \<noteq> 1 \<longrightarrow> getParent k \<in> dom (aabbs this')) \<and> (\<exists>n. (getParent ^^ n) k = 1)"
proof
  fix k
  assume k: "k \<in> dom (aabbs this')"
  note ok = build_root(1) [OF b fresh D] and out = build_root(2) [OF b fresh D]
  have u: "beneath 1 k"
  proof (rule ccontr)
    assume "\<not> beneath 1 k"
    from out [OF this] show False using k by (simp add: dom_def)
  qed
  then have "\<exists>n. (getParent ^^ n) k = 1" by (simp add: beneath_def)
  moreover have "getParent k \<in> dom (aabbs this')" if "k \<noteq> 1"
    using ok u k that unfolding subtreeOK_def by blast
  ultimately show "(k \<noteq> 1 \<longrightarrow> getParent k \<in> dom (aabbs this')) \<and> (\<exists>n. (getParent ^^ n) k = 1)"
    by blast
qed

theorem build_ancestor_closed_witness:
  "build 5 (new_Octree 2 4) [0, 1, 2, 3, 4] fiveVertices (new_AABB (vec 0 0 0) 8) 1 = Some fiveState
   \<and> aabbs (new_Octree 2 4) = Map.empty \<and> points (new_Octree 2 4) = Map.empty
   \<and> maxDepth (new_Octree 2 4) \<le> 10
   \<and> 7684 \<in> dom (aabbs fiveState) \<and> (7684 :: loccode) \<noteq> 1
   \<and> getParent 7684 \<in> dom (aabbs fiveState) \<and> (\<exists>n. (getParent ^^ n) 7684 = 1)"
proof -
  have k: "7684 \<in> dom (aabbs fiveState)" by (simp add: fiveState_def)
  from build_ancestor_closed [OF fiveState_build new_Octree_fresh new_Octree_2_4] k
  have "((7684 :: loccode) \<noteq> 1 \<longrightarrow> getParent 7684 \<in> dom (aabbs fiveState))
        \<and> (\<exists>n. (getParent ^^ n) 7684 = 1)"
    by blast
  then show ?thesis
    using fiveState_build new_Octree_fresh [of 2 4] new_Octree_2_4 k by simp
qed

section \<open>Null entries are the internal nodes\<close>

text \<open>
  C6, amended. After a build from empty maps with the root code 1, the points
  map has exactly the keys of the box map, so an internal node's entry is
  present; and, for a maximum depth of at most 10, the value of a key is
  \<open>null\<close> exactly when the node is the parent of another node, that is, an
  internal node, and a list otherwise.
\<close>

theorem build_points_entries:
  assumes b: "build fuel this pointIndices vertices aabb 1 = Some this'"
    and fresh: "aabbs this = Map.empty" "points this = Map.empty"
  shows "dom (points this') = dom (aabbs this')
       \<and> (maxDepth this \<le> 10 \<longrightarrow>
            (\<forall>k \<in> dom (aabbs this').
               points this' k = Some None \<longleftrightarrow> (\<exists>k' \<in> dom (aabbs this'). getParent k' = k)))"
proof (intro conjI impI ballI)
  show "dom (points this') = dom (aabbs this')"
    using build_dom [OF b] fresh by simp
next
  fix k
  assume D: "maxDepth this \<le> 10" and k: "k \<in> dom (aabbs this')"
  note ok = build_root(1) [OF b fresh D] and out = build_root(2) [OF b fresh D]
  have u: "beneath 1 k"
  proof (rule ccontr)
    assume "\<not> beneath 1 k"
    from out [OF this] show False using k by (simp add: dom_def)
  qed
  show "points this' k = Some None \<longleftrightarrow> (\<exists>k' \<in> dom (aabbs this'). getParent k' = k)"
    using ok u k unfolding subtreeOK_def by blast
qed

theorem build_points_entries_witness:
  "build 5 (new_Octree 2 4) [0, 1, 2, 3, 4] fiveVertices (new_AABB (vec 0 0 0) 8) 1 = Some fiveState
   \<and> aabbs (new_Octree 2 4) = Map.empty \<and> points (new_Octree 2 4) = Map.empty
   \<and> maxDepth (new_Octree 2 4) \<le> 10
   \<and> 960 \<in> dom (aabbs fiveState) \<and> points fiveState 960 = Some None
   \<and> (\<exists>k' \<in> dom (aabbs fiveState). getParent k' = 960)"
proof -
  have k: "960 \<in> dom (aabbs fiveState)" and p: "points fiveState 960 = Some None"
    by (simp_all add: fiveState_def)
  from build_points_entries [OF fiveState_build new_Octree_fresh] new_Octree_2_4 k p
  have "\<exists>k' \<in> dom (aabbs fiveState). getParent k' = 960" by blast
  then show ?thesis
    using fiveState_build new_Octree_fresh [of 2 4] new_Octree_2_4 k p by simp
qed

section \<open>What traverse visits\<close>

lemma forEach_total_prefix_aux:
  assumes "I pre s"
    and "\<And>dn i t. I dn t \<Longrightarrow> (\<exists>rest. pre @ is = dn @ i # rest)
            \<Longrightarrow> \<exists>t'. body t i = Some t' \<and> I (dn @ [i]) t'"
  shows "\<exists>s'. forEach body is s = Some s' \<and> I (pre @ is) s'"
  using assms
proof (induction "is" arbitrary: pre s)
  case Nil
  then show ?case by simp
next
  case (Cons i "is")
  obtain s1 where s1: "body s i = Some s1" "I (pre @ [i]) s1"
    using Cons.prems(2) [OF Cons.prems(1)] by auto
  have "\<exists>s'. forEach body is s1 = Some s' \<and> I ((pre @ [i]) @ is) s'"
  proof (rule Cons.IH [OF s1(2)])
    fix dn j t
    assume "I dn t" "\<exists>rest. (pre @ [i]) @ is = dn @ j # rest"
    then show "\<exists>t'. body t j = Some t' \<and> I (dn @ [j]) t'"
      using Cons.prems(2) [of dn t j] by simp
  qed
  then show ?case using s1(1) by simp
qed

lemma forEach_total_prefix:
  assumes "I [] s"
    and "\<And>dn i t. I dn t \<Longrightarrow> (\<exists>rest. is = dn @ i # rest)
            \<Longrightarrow> \<exists>t'. body t i = Some t' \<and> I (dn @ [i]) t'"
  shows "\<exists>s'. forEach body is s = Some s' \<and> I is s'"
  using forEach_total_prefix_aux [where I = I and pre = "[]" and body = body and s = s and ?is = "is"]
    assms by simp

text \<open>
  The maps of a tree whose nodes are codes of depth at most 9 and whose
  nodes other than the root have their parent recorded.
\<close>

lemma ancestor_recorded:
  assumes closed: "\<And>k. k \<in> dom (aabbs this) \<Longrightarrow> k \<noteq> 1 \<Longrightarrow> getParent k \<in> dom (aabbs this)"
    and k: "k \<in> dom (aabbs this)" and c: "c \<noteq> 0" and n: "(getParent ^^ n) k = c"
  shows "c \<in> dom (aabbs this)"
  using k n
proof (induction n arbitrary: k)
  case 0
  then show ?case by simp
next
  case (Suc n)
  have step: "(getParent ^^ n) (getParent k) = c"
    using Suc.prems(2) by (simp add: funpow_swap1)
  show ?case
  proof (cases "k = 1")
    case True
    have "getParent (1 :: loccode) = 0" by (simp add: getParent_def)
    moreover have "(getParent ^^ m) 0 = (0 :: loccode)" for m
      by (induction m) (simp_all add: getParent_def)
    ultimately have "c = 0" using step True by simp
    then show ?thesis using c by simp
  next
    case False
    from closed [OF Suc.prems(1) False] step show ?thesis by (rule Suc.IH)
  qed
qed

lemma traverse_step:
  fixes this :: Octree
  assumes closed: "\<And>k. k \<in> dom (aabbs this) \<Longrightarrow> k \<noteq> 1 \<Longrightarrow> getParent k \<in> dom (aabbs this)"
    and c: "msb c = 3 * int d" "d < 10"
    and rec: "\<And>i s. i < 8 \<Longrightarrow> childCode c i \<in> dom (aabbs this) \<Longrightarrow>
        \<exists>L. traverse n this (\<lambda>pts box lc acc. acc @ [lc]) (childCode c i) s = Some (s @ L)
            \<and> distinct L
            \<and> set L = {k \<in> dom (aabbs this). beneath (childCode c i) k \<and> k \<noteq> childCode c i}"
  shows "\<exists>L. traverse (Suc n) this (\<lambda>pts box lc acc. acc @ [lc]) c s = Some (s @ L)
             \<and> distinct L \<and> set L = {k \<in> dom (aabbs this). beneath c k \<and> k \<noteq> c}"
proof -
  note nz = code_bounds(1) [OF c] and small = code_bounds(2) [OF c]
  let ?ch = "childCode c"
  let ?cb = "\<lambda>(pts :: nat list option option) (box :: AABB) (lc :: loccode) acc. acc @ [lc]"
  let ?body = "\<lambda>s i.
          let next = push_bit 3 c OR of_nat i in
          case aabbs this next of
            None \<Rightarrow> Some s
          | Some box \<Rightarrow> traverse n this ?cb next (?cb (points this next) box next s)"
  define I where "I = (\<lambda>dn t. \<exists>L. t = s @ L \<and> distinct L
      \<and> set L = {k \<in> dom (aabbs this). \<exists>j \<in> set dn. beneath (?ch j) k})"
  have disj: "\<not> beneath (?ch j') k"
    if "j < 8" "j' < 8" "j \<noteq> j'" "beneath (?ch j) k" for j j' k
    using beneath_childCode_disjoint [OF nz small that(1,2,3,4)] by blast
  have chnz: "?ch i \<noteq> 0" if "i < 8" for i
  proof
    assume "?ch i = 0"
    then have "unat (?ch i) = 0" by simp
    then show False using unat_childCode [OF small that] nz by (simp add: unat_eq_0)
  qed
  have loop: "\<exists>s'. forEach ?body [0..<8] s = Some s' \<and> I [0..<8] s'"
  proof (rule forEach_total_prefix)
    show "I [] s" by (simp add: I_def)
  next
    fix dn i t
    assume It: "I dn t" and "\<exists>rest. [0..<8] = dn @ i # rest"
    then obtain rest where "[0..<8] = dn @ i # rest" by blast
    note sp = upt8_split [OF this]
    have i8: "i < 8" using sp(3) .
    obtain L where L: "t = s @ L" "distinct L"
      "set L = {k \<in> dom (aabbs this). \<exists>j \<in> set dn. beneath (?ch j) k}"
      using It unfolding I_def by blast
    show "\<exists>t'. ?body t i = Some t' \<and> I (dn @ [i]) t'"
    proof (cases "aabbs this (?ch i)")
      case None
      have none: "\<not> beneath (?ch i) k" if "k \<in> dom (aabbs this)" for k
      proof
        assume "beneath (?ch i) k"
        then obtain m where "(getParent ^^ m) k = ?ch i" unfolding beneath_def ..
        from ancestor_recorded [OF closed that chnz [OF i8] this]
        show False using None by (simp add: dom_def)
      qed
      have "{k \<in> dom (aabbs this). \<exists>j \<in> set (dn @ [i]). beneath (?ch j) k}
            = {k \<in> dom (aabbs this). \<exists>j \<in> set dn. beneath (?ch j) k}"
      proof (intro set_eqI iffI)
        fix k
        assume "k \<in> {k \<in> dom (aabbs this). \<exists>j \<in> set (dn @ [i]). beneath (?ch j) k}"
        then have k: "k \<in> dom (aabbs this)" and "\<exists>j \<in> set (dn @ [i]). beneath (?ch j) k"
          by simp_all
        then have "\<exists>j \<in> set dn. beneath (?ch j) k" using none [OF k] by auto
        then show "k \<in> {k \<in> dom (aabbs this). \<exists>j \<in> set dn. beneath (?ch j) k}"
          using k by simp
      next
        fix k
        assume "k \<in> {k \<in> dom (aabbs this). \<exists>j \<in> set dn. beneath (?ch j) k}"
        then show "k \<in> {k \<in> dom (aabbs this). \<exists>j \<in> set (dn @ [i]). beneath (?ch j) k}"
          by auto
      qed
      then have "set L = {k \<in> dom (aabbs this). \<exists>j \<in> set (dn @ [i]). beneath (?ch j) k}"
        using L(3) by simp
      then have "I (dn @ [i]) t" unfolding I_def using L(1,2) by blast
      moreover have "?body t i = Some t" using None by (simp add: childCode_def)
      ultimately show ?thesis by simp
    next
      case (Some box)
      then have ci: "?ch i \<in> dom (aabbs this)" by (simp add: dom_def)
      from rec [OF i8 ci, of "t @ [?ch i]"] obtain L' where
        L': "traverse n this ?cb (?ch i) (t @ [?ch i]) = Some ((t @ [?ch i]) @ L')"
        "distinct L'"
        "set L' = {k \<in> dom (aabbs this). beneath (?ch i) k \<and> k \<noteq> ?ch i}"
        by blast
      let ?L = "L @ ?ch i # L'"
      have b: "?body t i = Some (s @ ?L)"
        using Some L' L(1) by (simp add: childCode_def)
      have notin: "k \<notin> set L" if "beneath (?ch i) k" for k
      proof
        assume "k \<in> set L"
        then obtain j where j: "j \<in> set dn" "beneath (?ch j) k" using L(3) by blast
        then have "j < 8" "j \<noteq> i" using sp(1,2) by auto
        then show False using disj [OF _ i8 _ j(2)] that by blast
      qed
      have d: "distinct ?L"
        using L(2) L'(2) L'(3) notin beneath_refl by auto
      have s: "set ?L = {k \<in> dom (aabbs this). \<exists>j \<in> set (dn @ [i]). beneath (?ch j) k}"
        using L(3) L'(3) ci beneath_refl by auto
      have "I (dn @ [i]) (s @ ?L)" unfolding I_def using d s by blast
      then show ?thesis using b by simp
    qed
  qed
  then obtain s' where s': "forEach ?body [0..<8] s = Some s'" "I [0..<8] s'" by blast
  then obtain L where L: "s' = s @ L" "distinct L"
    "set L = {k \<in> dom (aabbs this). \<exists>j \<in> set [0..<8]. beneath (?ch j) k}"
    unfolding I_def by blast
  have "{k \<in> dom (aabbs this). \<exists>j \<in> set [0..<8]. beneath (?ch j) k}
        = {k \<in> dom (aabbs this). beneath c k \<and> k \<noteq> c}"
  proof (intro set_eqI iffI)
    fix k
    assume "k \<in> {k \<in> dom (aabbs this). \<exists>j \<in> set [0..<8]. beneath (?ch j) k}"
    then obtain j where j: "k \<in> dom (aabbs this)" "j < 8" "beneath (?ch j) k" by auto
    then show "k \<in> {k \<in> dom (aabbs this). beneath c k \<and> k \<noteq> c}"
      using beneath_childCode [OF small j(2,3)] beneath_childCode_neq [OF nz small j(2,3)] by simp
  next
    fix k
    assume "k \<in> {k \<in> dom (aabbs this). beneath c k \<and> k \<noteq> c}"
    then have k: "k \<in> dom (aabbs this)" "beneath c k" "k \<noteq> c" by simp_all
    from beneath_strict_child [OF k(2,3)] k(1)
    show "k \<in> {k \<in> dom (aabbs this). \<exists>j \<in> set [0..<8]. beneath (?ch j) k}" by auto
  qed
  then have "set L = {k \<in> dom (aabbs this). beneath c k \<and> k \<noteq> c}" using L(3) by simp
  moreover have "traverse (Suc n) this ?cb c s = Some (s @ L)"
    using s'(1) L(1) by simp
  ultimately show ?thesis using L(2) by blast
qed

lemma traverse_visits:
  fixes this :: Octree
  assumes closed: "\<And>k. k \<in> dom (aabbs this) \<Longrightarrow> k \<noteq> 1 \<Longrightarrow> getParent k \<in> dom (aabbs this)"
    and codes: "\<And>k. k \<in> dom (aabbs this) \<Longrightarrow> \<exists>d \<le> 9. msb k = 3 * int d"
    and c: "msb c = 3 * int d" and fuel: "d + n = 9"
  shows "\<exists>L. traverse (Suc n) this (\<lambda>pts box lc acc. acc @ [lc]) c s = Some (s @ L)
             \<and> distinct L \<and> set L = {k \<in> dom (aabbs this). beneath c k \<and> k \<noteq> c}"
  using c fuel
proof (induction n arbitrary: c d s)
  case 0
  then have d: "d = 9" by simp
  show ?case
  proof (rule traverse_step [OF closed "0.prems"(1)])
    show "d < 10" using d by simp
  next
    fix i :: nat and s :: "loccode list"
    assume i: "i < 8" and ci: "childCode c i \<in> dom (aabbs this)"
    have "msb (childCode c i) = 3 * int (Suc d)"
      using child_depth [OF "0.prems"(1) _ i] d
        childCode_generate [OF code_bounds(1) [OF "0.prems"(1)], of i] by simp
    moreover obtain d' where "d' \<le> 9" "msb (childCode c i) = 3 * int d'"
      using codes [OF ci] by blast
    ultimately have False using d by simp
    then show "\<exists>L. traverse 0 this (\<lambda>pts box lc acc. acc @ [lc]) (childCode c i) s = Some (s @ L)
            \<and> distinct L
            \<and> set L = {k \<in> dom (aabbs this). beneath (childCode c i) k \<and> k \<noteq> childCode c i}" ..
  qed
next
  case (Suc n)
  then have d: "d < 9" by simp
  show ?case
  proof (rule traverse_step [OF closed Suc.prems(1)])
    show "d < 10" using d by simp
  next
    fix i :: nat and s :: "loccode list"
    assume i: "i < 8" and ci: "childCode c i \<in> dom (aabbs this)"
    have m: "msb (childCode c i) = 3 * int (Suc d)"
      using child_depth [OF Suc.prems(1) _ i] d
        childCode_generate [OF code_bounds(1) [OF Suc.prems(1)], of i] by simp
    have "Suc d + n = 9" using Suc.prems(2) by simp
    from Suc.IH [OF m this]
    show "\<exists>L. traverse (Suc n) this (\<lambda>pts box lc acc. acc @ [lc]) (childCode c i) s = Some (s @ L)
            \<and> distinct L
            \<and> set L = {k \<in> dom (aabbs this). beneath (childCode c i) k \<and> k \<noteq> childCode c i}" .
  qed
qed

lemma map_option_append:
  "map_option ((@) a) (map_option ((@) b) x) = map_option ((@) (a @ b)) x"
  by (cases x) simp_all

lemma map_option_foldl:
  "map_option (foldl f s) (map_option ((@) L) x) = map_option (foldl f (foldl f s L)) x"
  by (cases x) simp_all

lemma forEach_shift:
  assumes "\<And>s i. i \<in> set is \<Longrightarrow> body s i = map_option ((@) s) (body [] i)"
  shows "forEach body is acc = map_option ((@) acc) (forEach body is [])"
  using assms
proof (induction "is" arbitrary: acc)
  case Nil
  then show ?case by simp
next
  case (Cons i "is")
  have b: "body acc i = map_option ((@) acc) (body [] i)"
    by (rule Cons.prems) simp
  have IH: "forEach body is a = map_option ((@) a) (forEach body is [])" for a
  proof (rule Cons.IH)
    fix s j
    assume "j \<in> set is"
    then have "j \<in> set (i # is)" by simp
    then show "body s j = map_option ((@) s) (body [] j)" by (rule Cons.prems)
  qed
  show ?case
  proof (cases "body [] i")
    case None
    then show ?thesis using b by simp
  next
    case (Some L)
    then have "forEach body (i # is) acc = forEach body is (acc @ L)"
      using b by simp
    also have "\<dots> = map_option ((@) (acc @ L)) (forEach body is [])" by (rule IH)
    also have "\<dots> = map_option ((@) acc) (map_option ((@) L) (forEach body is []))"
      by (simp only: map_option_append)
    also have "map_option ((@) L) (forEach body is []) = forEach body is L"
      by (rule IH [symmetric])
    also have "forEach body is L = forEach body (i # is) []" using Some by simp
    finally show ?thesis .
  qed
qed

lemma traverse_collect_shift:
  "traverse n this (\<lambda>pts box lc acc. acc @ [lc]) c acc
   = map_option ((@) acc) (traverse n this (\<lambda>pts box lc acc. acc @ [lc]) c [])"
proof (induction n arbitrary: c acc)
  case 0
  then show ?case by simp
next
  case (Suc n)
  show ?case
    unfolding traverse.simps
  proof (rule forEach_shift)
    fix s :: "loccode list" and i :: nat
    let ?next = "push_bit 3 c OR of_nat i :: loccode"
    show "(let next = push_bit 3 c OR of_nat i in
           case aabbs this next of
             None \<Rightarrow> Some s
           | Some box \<Rightarrow> traverse n this (\<lambda>pts box lc acc. acc @ [lc]) next (s @ [next]))
        = map_option ((@) s)
           (let next = push_bit 3 c OR of_nat i in
            case aabbs this next of
              None \<Rightarrow> Some []
            | Some box \<Rightarrow> traverse n this (\<lambda>pts box lc acc. acc @ [lc]) next ([] @ [next]))"
    proof (cases "aabbs this ?next")
      case None
      then show ?thesis by simp
    next
      case (Some box)
      have "traverse n this (\<lambda>pts box lc acc. acc @ [lc]) ?next (s @ [?next])
            = map_option ((@) (s @ [?next])) (traverse n this (\<lambda>pts box lc acc. acc @ [lc]) ?next [])"
        by (rule Suc.IH)
      moreover have "traverse n this (\<lambda>pts box lc acc. acc @ [lc]) ?next [?next]
            = map_option ((@) [?next]) (traverse n this (\<lambda>pts box lc acc. acc @ [lc]) ?next [])"
        by (rule Suc.IH)
      ultimately show ?thesis using Some by (simp add: Let_def map_option_append)
    qed
  qed
qed

lemma forEach_callback:
  assumes shift: "\<And>a i. i \<in> set is \<Longrightarrow> bodyc a i = map_option ((@) a) (bodyc [] i)"
    and rel: "\<And>s i. i \<in> set is \<Longrightarrow> body s i = map_option (foldl step s) (bodyc [] i)"
  shows "forEach body is s = map_option (foldl step s) (forEach bodyc is [])"
  using assms
proof (induction "is" arbitrary: s)
  case Nil
  then show ?case by simp
next
  case (Cons i "is")
  have b: "body s i = map_option (foldl step s) (bodyc [] i)"
    by (rule Cons.prems(2)) simp
  have p1: "bodyc a j = map_option ((@) a) (bodyc [] j)" if "j \<in> set is" for a j
  proof -
    have "j \<in> set (i # is)" using that by simp
    then show ?thesis by (rule Cons.prems(1))
  qed
  have p2: "body u j = map_option (foldl step u) (bodyc [] j)" if "j \<in> set is" for u j
  proof -
    have "j \<in> set (i # is)" using that by simp
    then show ?thesis by (rule Cons.prems(2))
  qed
  have IH: "forEach body is t = map_option (foldl step t) (forEach bodyc is [])" for t
    by (rule Cons.IH) (erule p1, erule p2)
  have sh: "forEach bodyc is a = map_option ((@) a) (forEach bodyc is [])" for a
    by (rule forEach_shift) (erule p1)
  show ?case
  proof (cases "bodyc [] i")
    case None
    then show ?thesis using b by simp
  next
    case (Some L)
    then have "forEach body (i # is) s = forEach body is (foldl step s L)"
      using b by simp
    also have "\<dots> = map_option (foldl step (foldl step s L)) (forEach bodyc is [])" by (rule IH)
    also have "\<dots> = map_option (foldl step s) (map_option ((@) L) (forEach bodyc is []))"
      by (simp only: map_option_foldl)
    also have "map_option ((@) L) (forEach bodyc is []) = forEach bodyc is L"
      by (rule sh [symmetric])
    also have "forEach bodyc is L = forEach bodyc (i # is) []" using Some by simp
    finally show ?thesis .
  qed
qed

text \<open>
  Whatever the callback, \<open>traverse\<close> applies it to the nodes in the order in
  which the recording callback lists their codes.
\<close>

lemma traverse_callback:
  "traverse n this cb c s
   = map_option (foldl (\<lambda>s k. cb (points this k) (the (aabbs this k)) k s) s)
       (traverse n this (\<lambda>pts box lc acc. acc @ [lc]) c [])"
proof (induction n arbitrary: c s)
  case 0
  then show ?case by simp
next
  case (Suc n)
  let ?step = "\<lambda>s k. cb (points this k) (the (aabbs this k)) k s"
  let ?col = "\<lambda>(pts :: nat list option option) (box :: AABB) (lc :: loccode) acc. acc @ [lc]"
  show ?case
    unfolding traverse.simps
  proof (rule forEach_callback)
    fix a :: "loccode list" and i :: nat
    let ?next = "push_bit 3 c OR of_nat i :: loccode"
    show "(let next = push_bit 3 c OR of_nat i in
           case aabbs this next of
             None \<Rightarrow> Some a
           | Some box \<Rightarrow> traverse n this ?col next (a @ [next]))
        = map_option ((@) a)
           (let next = push_bit 3 c OR of_nat i in
            case aabbs this next of
              None \<Rightarrow> Some []
            | Some box \<Rightarrow> traverse n this ?col next ([] @ [next]))"
      using traverse_collect_shift [of n this ?next "a @ [?next]"]
        traverse_collect_shift [of n this ?next "[?next]"]
      by (cases "aabbs this ?next") (simp_all add: Let_def map_option_append)
  next
    fix s i
    let ?next = "push_bit 3 c OR of_nat i :: loccode"
    show "(let next = push_bit 3 c OR of_nat i in
           case aabbs this next of
             None \<Rightarrow> Some s
           | Some box \<Rightarrow> traverse n this cb next (cb (points this next) box next s))
        = map_option (foldl ?step s)
           (let next = push_bit 3 c OR of_nat i in
            case aabbs this next of
              None \<Rightarrow> Some []
            | Some box \<Rightarrow> traverse n this ?col next ([] @ [next]))"
    proof (cases "aabbs this ?next")
      case None
      then show ?thesis by simp
    next
      case (Some box)
      have "traverse n this cb ?next (cb (points this ?next) box ?next s)
            = map_option (foldl ?step (cb (points this ?next) box ?next s))
                (traverse n this ?col ?next [])"
        by (rule Suc.IH)
      moreover have "traverse n this ?col ?next [?next]
            = map_option ((@) [?next]) (traverse n this ?col ?next [])"
        by (rule traverse_collect_shift)
      ultimately show ?thesis using Some by (simp add: Let_def map_option_foldl)
    qed
  qed
qed

text \<open>
  C3, as the claim states it, fails: \<open>traverse\<close> hands the children of its
  start node and their descendants to the callback, never the start node
  itself. On the tree whose root is a leaf it visits nothing, while the box
  map has the key 1.
\<close>

theorem traverse_visits_counterexample:
  "lineTree = Some lineState
   \<and> visited 1 lineState = Some []
   \<and> getLocCodes lineState = {1}
   \<and> set [] \<noteq> getLocCodes lineState"
  using lineTree_eq
  by (simp add: lineState_def visited_def getLocCodes_def upt8 Let_def cong: forEach_weak_cong)

text \<open>
  C3, amended. For an octree built from empty maps with the root code 1 and
  a maximum depth of at most 9, \<open>traverse\<close> from the root returns, and the
  codes it hands to its callback are the keys of the box map other than the
  root code 1, each exactly once, whatever the callback. (At depth 10 the
  child codes a traversal computes wrap around 32 bits.)
\<close>

theorem traverse_visits_all_but_root:
  assumes b: "build fuel this pointIndices vertices aabb 1 = Some this'"
    and fresh: "aabbs this = Map.empty" "points this = Map.empty"
    and D: "maxDepth this \<le> 9"
  shows "\<exists>L. visited 10 this' = Some L \<and> distinct L \<and> set L = getLocCodes this' - {1}
           \<and> (\<forall>(cb :: nat list option option \<Rightarrow> AABB \<Rightarrow> loccode \<Rightarrow> 's \<Rightarrow> 's) s.
                 traverse 10 this' cb 1 s
                 = Some (foldl (\<lambda>s k. cb (points this' k) (the (aabbs this' k)) k s) s L))"
proof -
  have D10: "maxDepth this \<le> 10" using D by simp
  note ok = build_root(1) [OF b fresh D10] and out = build_root(2) [OF b fresh D10]
  have u: "beneath 1 k" if "k \<in> dom (aabbs this')" for k
  proof (rule ccontr)
    assume "\<not> beneath 1 k"
    from out [OF this] show False using that by (simp add: dom_def)
  qed
  have closed: "getParent k \<in> dom (aabbs this')" if "k \<in> dom (aabbs this')" "k \<noteq> 1" for k
    using ok u [OF that(1)] that unfolding subtreeOK_def by blast
  have codes: "\<exists>d \<le> 9. msb k = 3 * int d" if k: "k \<in> dom (aabbs this')" for k
  proof -
    obtain d where "d \<le> maxDepth this" "msb k = 3 * int d"
      using ok u [OF k] k unfolding subtreeOK_def by blast
    then show ?thesis using D by (intro exI [of _ d]) simp
  qed
  have m: "msb 1 = 3 * int 0" by (simp add: msb_1)
  from traverse_visits [OF closed codes m, of 9 "[]"]
  obtain L where L: "traverse 10 this' (\<lambda>pts box lc acc. acc @ [lc]) 1 [] = Some L"
    "distinct L" "set L = {k \<in> dom (aabbs this'). beneath 1 k \<and> k \<noteq> 1}"
    by auto
  have "set L = getLocCodes this' - {1}"
    using L(3) u by (auto simp: getLocCodes_def)
  moreover have "traverse 10 this' cb 1 s
      = Some (foldl (\<lambda>s k. cb (points this' k) (the (aabbs this' k)) k s) s L)"
    for cb :: "nat list option option \<Rightarrow> AABB \<Rightarrow> loccode \<Rightarrow> 's \<Rightarrow> 's" and s
    using traverse_callback [of 10 this' cb 1 s] L(1) by simp
  ultimately show ?thesis using L(1,2) by (simp add: visited_def)
qed

theorem traverse_visits_all_but_root_witness:
  "build 5 (new_Octree 2 4) [0, 1, 2, 3, 4] fiveVertices (new_AABB (vec 0 0 0) 8) 1 = Some fiveState
   \<and> aabbs (new_Octree 2 4) = Map.empty \<and> points (new_Octree 2 4) = Map.empty
   \<and> maxDepth (new_Octree 2 4) \<le> 9
   \<and> (\<exists>L. visited 10 fiveState = Some L \<and> distinct L \<and> set L = getLocCodes fiveState - {1})"
proof -
  have d: "maxDepth (new_Octree 2 4) \<le> 9" by (simp add: new_Octree_def)
  from traverse_visits_all_but_root [OF fiveState_build new_Octree_fresh d]
  have "\<exists>L. visited 10 fiveState = Some L \<and> distinct L \<and> set L = getLocCodes fiveState - {1}"
    by blast
  then show ?thesis using fiveState_build new_Octree_fresh [of 2 4] d by simp
qed

section \<open>Build and ray search return\<close>

lemma build_keeps_maxDepth:
  assumes "build fuel this pointIndices vertices aabb lc = Some this'"
  shows "maxDepth this' = maxDepth this"
proof -
  have "True \<and> threshold this' = threshold this \<and> maxDepth this' = maxDepth this"
    by (rule build_rule [OF assms, where P = "\<lambda>s :: Octree. True" and Q = "\<lambda>c. True"]) simp_all
  then show ?thesis by simp
qed

lemma build_returns_aux:
  assumes "msb lc = 3 * int d" "d + fuel = maxDepth this" "maxDepth this \<le> 10"
  shows "\<exists>this'. build (Suc fuel) this pointIndices vertices aabb lc = Some this'"
  using assms
proof (induction fuel arbitrary: lc d this pointIndices aabb)
  case 0
  then have "getDepth lc \<ge> of_nat (maxDepth this)" by (simp add: getDepth_ge)
  then have "stops this pointIndices lc" by (simp add: stops_def)
  then show ?case by (simp add: build_Suc del: build.simps)
next
  case (Suc fuel)
  show ?case
  proof (cases "stops this pointIndices lc")
    case True
    then show ?thesis by (simp add: build_Suc del: build.simps)
  next
    case False
    let ?bx = "setLocCode aabb lc"
    let ?D = "maxDepth this"
    have d10: "d < 10" using Suc.prems(2,3) by simp
    have "\<exists>s'. forEach (childBody (Suc fuel) pointIndices vertices ?bx lc) [0..<8]
                   (enter this aabb lc) = Some s' \<and> (\<lambda>dn (s :: Octree). maxDepth s = ?D) [0..<8] s'"
    proof (rule forEach_total_prefix)
      show "maxDepth (enter this aabb lc) = ?D" by (simp add: enter_def)
    next
      fix dn :: "nat list" and i :: nat and t :: Octree
      assume t: "maxDepth t = ?D" and "\<exists>rest. [0..<8] = dn @ i # rest"
      then obtain rest where "[0..<8] = dn @ i # rest" by blast
      note sp = upt8_split [OF this]
      show "\<exists>t'. childBody (Suc fuel) pointIndices vertices ?bx lc t i = Some t' \<and> maxDepth t' = ?D"
      proof (cases "childCount vertices ?bx pointIndices i = 0")
        case True
        then show ?thesis using t by (simp add: childBody_def)
      next
        case False
        have m: "msb (generateLocCode lc (of_nat i)) = 3 * int (Suc d)"
          using child_depth [OF Suc.prems(1) d10 sp(3)] .
        have "Suc d + fuel = maxDepth t" "maxDepth t \<le> 10"
          using Suc.prems(2,3) t by simp_all
        from Suc.IH [OF m this] obtain t' where
          t': "build (Suc fuel) t (childPoints vertices ?bx pointIndices i) vertices
                 (nextAabb ?bx i) (generateLocCode lc (of_nat i)) = Some t'"
          by blast
        then have "maxDepth t' = ?D" using build_keeps_maxDepth [OF t'] t by simp
        then show ?thesis using t' False by (simp add: childBody_def)
      qed
    qed
    then show ?thesis using False by (auto simp: build_Suc simp del: build.simps)
  qed
qed

text \<open>
  With a maximum depth of at most 10, a build from the root returns within
  \<open>maxDepth + 1\<close> nested calls.
\<close>

lemma build_returns:
  assumes "maxDepth this \<le> 10"
  shows "\<exists>this'. build (Suc (maxDepth this)) this pointIndices vertices aabb 1 = Some this'"
  using build_returns_aux [of 1 0 "maxDepth this" this] assms by (simp add: msb_1)

lemma traverseIf_returns_aux:
  fixes this :: Octree
  assumes codes: "\<And>k. k \<in> dom (aabbs this) \<Longrightarrow> \<exists>d \<le> 9. msb k = 3 * int d"
    and c: "msb c = 3 * int d" and fuel: "d + n = 9"
  shows "\<exists>s'. traverseIf (Suc n) this cb cond c s = Some s'"
  using c fuel
proof (induction n arbitrary: c d s)
  case 0
  have d: "d < 10" using "0.prems"(2) by simp
  have absent: "aabbs this (push_bit 3 c OR of_nat i) = None" if i: "i < 8" for i
  proof (rule ccontr)
    assume "aabbs this (push_bit 3 c OR of_nat i) \<noteq> None"
    then have "childCode c i \<in> dom (aabbs this)" by (simp add: childCode_def dom_def)
    then obtain d' where "d' \<le> 9" "msb (childCode c i) = 3 * int d'" using codes by blast
    moreover have "msb (childCode c i) = 3 * int (Suc d)"
      using child_depth [OF "0.prems"(1) d i]
        childCode_generate [OF code_bounds(1) [OF "0.prems"(1) d], of i] by simp
    ultimately show False using "0.prems"(2) by simp
  qed
  have "\<exists>s'. forEach
       (\<lambda>s i.
          let next = push_bit 3 c OR of_nat i in
          case aabbs this next of
            None \<Rightarrow> Some s
          | Some box \<Rightarrow>
              if \<not> cond box next then Some s
              else traverseIf 0 this cb cond next (cb (points this next) box next s))
       [0..<8] s = Some s' \<and> (\<lambda>dn t. True) [0..<8] s'"
  proof (rule forEach_total_prefix)
    fix dn i t
    assume "\<exists>rest. [0..<8] = dn @ i # rest"
    then obtain rest where "[0..<8] = dn @ i # rest" by blast
    note sp = upt8_split [OF this]
    show "\<exists>t'. (let next = push_bit 3 c OR of_nat i in
          case aabbs this next of
            None \<Rightarrow> Some t
          | Some box \<Rightarrow>
              if \<not> cond box next then Some t
              else traverseIf 0 this cb cond next (cb (points this next) box next t)) = Some t'
        \<and> True"
      using absent [OF sp(3)] by (simp add: Let_def)
  qed simp
  then show ?case by simp
next
  case (Suc n)
  have d: "d < 10" using Suc.prems(2) by simp
  have "\<exists>s'. forEach
       (\<lambda>s i.
          let next = push_bit 3 c OR of_nat i in
          case aabbs this next of
            None \<Rightarrow> Some s
          | Some box \<Rightarrow>
              if \<not> cond box next then Some s
              else traverseIf (Suc n) this cb cond next (cb (points this next) box next s))
       [0..<8] s = Some s' \<and> (\<lambda>dn t. True) [0..<8] s'"
  proof (rule forEach_total_prefix)
    fix dn i t
    assume "\<exists>rest. [0..<8] = dn @ i # rest"
    then obtain rest where "[0..<8] = dn @ i # rest" by blast
    note sp = upt8_split [OF this]
    let ?next = "push_bit 3 c OR of_nat i :: loccode"
    have m: "msb ?next = 3 * int (Suc d)"
      using child_depth [OF Suc.prems(1) d sp(3)]
        childCode_generate [OF code_bounds(1) [OF Suc.prems(1) d], of i]
      by (simp add: childCode_def)
    have "Suc d + n = 9" using Suc.prems(2) by simp
    from Suc.IH [OF m this]
    have r: "\<exists>t'. traverseIf (Suc n) this cb cond ?next u = Some t'" for u .
    show "\<exists>t'. (let next = push_bit 3 c OR of_nat i in
          case aabbs this next of
            None \<Rightarrow> Some t
          | Some box \<Rightarrow>
              if \<not> cond box next then Some t
              else traverseIf (Suc n) this cb cond next (cb (points this next) box next t)) = Some t'
        \<and> True"
    proof (cases "aabbs this ?next")
      case None
      then show ?thesis by (simp add: Let_def)
    next
      case (Some box)
      show ?thesis
      proof (cases "cond box ?next")
        case True
        then show ?thesis
          using Some r [of "cb (points this ?next) box ?next t"] by (simp add: Let_def)
      next
        case False
        then show ?thesis using Some by (simp add: Let_def)
      qed
    qed
  qed simp
  then show ?case by simp
qed

text \<open>
  On an octree built with a maximum depth of at most 9, a ray search returns
  within ten nested calls of \<open>traverseIf\<close>.
\<close>

lemma raySearch_returns:
  assumes b: "build fuel this pointIndices vertices aabb 1 = Some this'"
    and fresh: "aabbs this = Map.empty" "points this = Map.empty"
    and D: "maxDepth this \<le> 9"
  shows "\<exists>result. raySearch 10 cylinderTest this' raycaster = Some result"
proof -
  have D10: "maxDepth this \<le> 10" using D by simp
  note ok = build_root(1) [OF b fresh D10] and out = build_root(2) [OF b fresh D10]
  have codes: "\<exists>d \<le> 9. msb k = 3 * int d" if k: "k \<in> dom (aabbs this')" for k
  proof -
    have "beneath 1 k"
    proof (rule ccontr)
      assume "\<not> beneath 1 k"
      from out [OF this] show False using k by (simp add: dom_def)
    qed
    then obtain d where "d \<le> maxDepth this" "msb k = 3 * int d"
      using ok k unfolding subtreeOK_def by blast
    then show ?thesis using D by (intro exI [of _ d]) simp
  qed
  have m: "msb 1 = 3 * int 0" by (simp add: msb_1)
  show ?thesis
    unfolding raySearch_def Let_def
    using traverseIf_returns_aux [OF codes m, where n = 9] by simp
qed

section \<open>The root's points in a ray search\<close>

text \<open>
  C7. For an octree built from empty maps with the root code 1 and a maximum
  depth of at most 9, for every ray and every cylinder test: \<open>raySearch\<close>
  returns, within ten nested calls of \<open>traverseIf\<close>, and its result starts
  with the points stored at the root node (location code 1), each paired with
  the location code 1, whatever the test answers for the root box.
\<close>

theorem raySearch_root_points:
  assumes b: "build fuel this pointIndices vertices aabb 1 = Some this'"
    and fresh: "aabbs this = Map.empty" "points this = Map.empty"
    and D: "maxDepth this \<le> 9"
  shows "\<exists>result. raySearch 10 cylinderTest this' raycaster = Some result
           \<and> (\<forall>ps. points this' 1 = Some (Some ps)
                 \<longrightarrow> (\<exists>rest. result = map (\<lambda>p. (p, 1)) ps @ rest))"
proof -
  obtain result where r: "raySearch 10 cylinderTest this' raycaster = Some result"
    using raySearch_returns [OF b fresh D, of cylinderTest raycaster] by blast
  have "\<exists>rest. result = map (\<lambda>p. (p, 1)) ps @ rest" if "points this' 1 = Some (Some ps)" for ps
    using r that by (rule raySearch_prefix)
  then show ?thesis using r by blast
qed

lemma lineState_build:
  "build 1 (new_Octree 2 4) [1, 2] lineVertices (new_AABB (vec 0 0 0) 4) 1 = Some lineState"
  using lineTree_eq by (simp add: lineTree_def)

theorem raySearch_root_points_witness:
  "build 1 (new_Octree 2 4) [1, 2] lineVertices (new_AABB (vec 0 0 0) 4) 1 = Some lineState
   \<and> aabbs (new_Octree 2 4) = Map.empty \<and> points (new_Octree 2 4) = Map.empty
   \<and> maxDepth (new_Octree 2 4) \<le> 9
   \<and> points lineState 1 = Some (Some [1, 2])
   \<and> (\<exists>result. raySearch 10 (\<lambda>r box. False) lineState () = Some result
         \<and> (\<exists>rest. result = map (\<lambda>p. (p, 1)) [1, 2] @ rest))"
proof -
  have d: "maxDepth (new_Octree 2 4) \<le> 9" by (simp add: new_Octree_def)
  have p: "points lineState 1 = Some (Some [1, 2])" by (simp add: lineState_def)
  from raySearch_root_points [OF lineState_build new_Octree_fresh d, of "\<lambda>r box. False" "()"] p
  have "\<exists>result. raySearch 10 (\<lambda>r box. False) lineState () = Some result
         \<and> (\<exists>rest. result = map (\<lambda>p. (p, 1)) [1, 2] @ rest)"
    by blast
  then show ?thesis using lineState_build new_Octree_fresh [of 2 4] d p by simp
qed

text \<open>
  With a maximum depth of 10 a ray search need not return. Two points that
  share the octant 0 on every level give a node of depth 10 with the code
  \<open>2 ^ 30\<close>; there \<open>locCode << 3 | 1\<close> wraps around 32 bits to the code 1 of
  the root, whose box exists. With a test that accepts every box
  \<open>traverseIf\<close> descends from the root to that node and from there into the
  root again, whatever the number of nested calls allowed.
\<close>

lemma zeroTree_eq: "zeroTree = Some zeroState"
  by (simp add: zeroTree_def zeroVertices_def zeroState_def build_evals cong: forEach_weak_cong)

lemma wrapped_root: "(8589934592 :: loccode) = 0" "(8589934593 :: loccode) = 1"
  by simp_all

lemma zeroState_boxes:
  "aabbs zeroState 1 = Some (setLocCode (new_AABB (vec 0 0 0) 2048) 1)"
  "aabbs zeroState 8 = Some (setLocCode (new_AABB (vec (- 1024) (- 1024) (- 1024)) 1024) 8)"
  "aabbs zeroState 64 = Some (setLocCode (new_AABB (vec (- 1536) (- 1536) (- 1536)) 512) 64)"
  "aabbs zeroState 512 = Some (setLocCode (new_AABB (vec (- 1792) (- 1792) (- 1792)) 256) 512)"
  "aabbs zeroState 4096 = Some (setLocCode (new_AABB (vec (- 1920) (- 1920) (- 1920)) 128) 4096)"
  "aabbs zeroState 32768 = Some (setLocCode (new_AABB (vec (- 1984) (- 1984) (- 1984)) 64) 32768)"
  "aabbs zeroState 262144 = Some (setLocCode (new_AABB (vec (- 2016) (- 2016) (- 2016)) 32) 262144)"
  "aabbs zeroState 2097152 = Some (setLocCode (new_AABB (vec (- 2032) (- 2032) (- 2032)) 16) 2097152)"
  "aabbs zeroState 16777216 = Some (setLocCode (new_AABB (vec (- 2040) (- 2040) (- 2040)) 8) 16777216)"
  "aabbs zeroState 134217728 = Some (setLocCode (new_AABB (vec (- 2044) (- 2044) (- 2044)) 4) 134217728)"
  "aabbs zeroState 1073741824 = Some (setLocCode (new_AABB (vec (- 2046) (- 2046) (- 2046)) 2) 1073741824)"
  "aabbs zeroState 0 = None"
  by (simp_all add: zeroState_def)

lemma traverseIf_zeroState:
  "\<forall>c \<in> set [1, 8, 64, 512, 4096, 32768, 262144, 2097152, 16777216, 134217728, 1073741824].
     \<forall>s. traverseIf n zeroState cb (\<lambda>box k. True) c s = None"
proof (induction n)
  case 0
  then show ?case by simp
next
  case (Suc n)
  then show ?case
    by (simp add: zeroState_boxes upt8 Let_def wrapped_root cong: forEach_weak_cong)
qed

lemma raySearch_zeroState: "raySearch fuel (\<lambda>r box. True) zeroState () = None"
proof -
  have "points zeroState 1 = Some None" by (simp add: zeroState_def)
  moreover have "traverseIf fuel zeroState cb (\<lambda>box k. True) 1 s = None"
    for cb :: "nat list option option \<Rightarrow> AABB \<Rightarrow> loccode \<Rightarrow> (nat \<times> loccode) list \<Rightarrow> (nat \<times> loccode) list"
      and s
    using traverseIf_zeroState [of fuel cb] by simp
  ultimately show ?thesis by (simp add: raySearch_def)
qed

text \<open>
  C7, as the claim states it for every built octree, fails on this tree: no
  result list comes back.
\<close>

theorem raySearch_root_points_counterexample:
  "build 11 (new_Octree 1 10) [0, 1] zeroVertices (new_AABB (vec 0 0 0) 2048) 1 = Some zeroState
   \<and> aabbs (new_Octree 1 10) = Map.empty \<and> points (new_Octree 1 10) = Map.empty
   \<and> maxDepth (new_Octree 1 10) = 10
   \<and> (\<forall>fuel. raySearch fuel (\<lambda>r box. True) zeroState () = None)"
  using zeroTree_eq raySearch_zeroState by (simp add: zeroTree_def new_Octree_def)

section \<open>The stopping rule of build\<close>







end
